theory Spec2Isabelle
  imports Complex_Main
begin

section \<open>Web vitals: \<open>createPerformanceEntries.ts\<close>\<close>

text \<open>
  A DOM node is known by its identity only. A JavaScript number is modelled as a rational;
  none of the properties below depends on rounding.
\<close>

type_synonym Node = nat

datatype Error = TypeError

datatype Rating = Good | NeedsImprovement | Poor

text \<open>\<open>LayoutShiftAttribution\<close>: only \<open>node\<close> is read (\<open>node?: Node\<close>).\<close>

record LayoutShiftAttribution =
  node :: "Node option"

text \<open>
  A performance entry, with the optional members the getters cast it to:
  \<open>element?: Node\<close>, \<open>sources?: LayoutShiftAttribution[]\<close>, \<open>target?: Node\<close>.
\<close>

record PerformanceEntry =
  element :: "Node option"
  sources :: "LayoutShiftAttribution list option"
  target :: "Node option"

record Metric =
  m_value :: rat
  rating :: Rating
  entries :: "PerformanceEntry list"

record WebVitalData =
  d_value :: rat
  d_size :: rat
  d_rating :: Rating
  nodeId :: "int option"

record ReplayPerformanceEntry =
  e_type :: string
  e_name :: string
  e_start :: rat
  e_end :: rat
  e_data :: WebVitalData

text \<open>
  What the module imports: \<open>browserPerformanceTimeOrigin\<close> (may be undefined),
  \<open>WINDOW.performance.timeOrigin\<close> and \<open>record.mirror.getId\<close>.
\<close>

record Browser =
  browserPerformanceTimeOrigin :: "rat option"
  timeOrigin :: rat
  getId :: "Node \<Rightarrow> int"

text \<open>\<open>(browserPerformanceTimeOrigin || WINDOW.performance.timeOrigin) + time) / 1000\<close>;
  \<open>||\<close> takes the right operand when the left one is undefined or \<open>0\<close>.\<close>

definition getAbsoluteTime :: "Browser \<Rightarrow> rat \<Rightarrow> rat" where
  "getAbsoluteTime b time =
     ((case browserPerformanceTimeOrigin b of
         None \<Rightarrow> timeOrigin b
       | Some t \<Rightarrow> if t = 0 then timeOrigin b else t) + time) / 1000"

definition getWebVital :: "Browser \<Rightarrow> Metric \<Rightarrow> string \<Rightarrow> Node option \<Rightarrow> ReplayPerformanceEntry" where
  "getWebVital b metric name nd =
     (let val = m_value metric;
          rt = rating metric;
          en = getAbsoluteTime b val
      in \<lparr> e_type = ''web-vital'',
           e_name = name,
           e_start = en,
           e_end = en,
           e_data = \<lparr> d_value = val, d_size = val, d_rating = rt,
                      nodeId = (case nd of None \<Rightarrow> None | Some n \<Rightarrow> Some (getId b n)) \<rparr> \<rparr>)"

text \<open>
  \<open>firstEntry ? (firstEntry.sources ? firstEntry.sources[0].node : undefined) : undefined\<close>.
  An array is truthy also when it is empty; then \<open>sources[0]\<close> is undefined and reading
  \<open>.node\<close> of it throws a TypeError.
\<close>

definition getCumulativeLayoutShift :: "Browser \<Rightarrow> Metric \<Rightarrow> Error + ReplayPerformanceEntry" where
  "getCumulativeLayoutShift b metric =
     (case entries metric of
        [] \<Rightarrow> Inr (getWebVital b metric ''cumulative-layout-shift'' None)
      | firstEntry # _ \<Rightarrow>
          (case sources firstEntry of
             None \<Rightarrow> Inr (getWebVital b metric ''cumulative-layout-shift'' None)
           | Some [] \<Rightarrow> Inl TypeError
           | Some (s # _) \<Rightarrow> Inr (getWebVital b metric ''cumulative-layout-shift'' (node s))))"

section \<open>Vue lifecycle tracing: the hook table\<close>

text \<open>
  \<open>HOOKS[operation]\<close> reads a property of an object literal. The six operations are its
  own properties. A name that the literal inherits from \<open>Object.prototype\<close> reads as a
  function (or, for \<open>__proto__\<close>, as the prototype object): truthy, and not iterable. Any
  other name reads as undefined.
\<close>

datatype HookLookup = Hooks "string list" | Inherited | Undefined

definition objectPrototypeNames :: "string list" where
  "objectPrototypeNames =
     [''constructor'', ''hasOwnProperty'', ''isPrototypeOf'', ''propertyIsEnumerable'',
      ''toLocaleString'', ''toString'', ''valueOf'', ''__proto__'',
      ''__defineGetter__'', ''__defineSetter__'', ''__lookupGetter__'', ''__lookupSetter__'']"

definition HOOKS :: "string \<Rightarrow> HookLookup" where
  "HOOKS operation =
     (if operation = ''activate'' then Hooks [''activated'', ''deactivated'']
      else if operation = ''create'' then Hooks [''beforeCreate'', ''created'']
      else if operation = ''unmount'' then Hooks [''beforeUnmount'', ''unmounted'']
      else if operation = ''destroy'' then Hooks [''beforeDestroy'', ''destroyed'']
      else if operation = ''mount'' then Hooks [''beforeMount'', ''mounted'']
      else if operation = ''update'' then Hooks [''beforeUpdate'', ''updated'']
      else if operation \<in> set objectPrototypeNames then Inherited
      else Undefined)"

text \<open>\<open>Array.prototype.indexOf\<close>: the first index of the value, \<open>-1\<close> when absent.\<close>

fun indexFrom :: "nat \<Rightarrow> 'a list \<Rightarrow> 'a \<Rightarrow> int" where
  "indexFrom i [] v = -1"
| "indexFrom i (x # xs) v = (if x = v then int i else indexFrom (Suc i) xs v)"

definition indexOf :: "'a list \<Rightarrow> 'a \<Rightarrow> int" where
  "indexOf xs v = indexFrom 0 xs v"

text \<open>\<open>.filter((value, index, self) => self.indexOf(value) === index)\<close>\<close>

definition removeDuplicates :: "'a list \<Rightarrow> 'a list" where
  "removeDuplicates self =
     map snd (filter (\<lambda>(index, val). indexOf self val = int index) (enumerate 0 self))"

datatype TrackComponents = Names "string list" | Flag bool | Absent

record TracingOptions =
  hooks :: "string list option"
  trackComponents :: TrackComponents
  timeout :: nat

text \<open>The two constants the module imports: \<open>DEBUG_BUILD\<close> and \<open>DEFAULT_HOOKS\<close>.\<close>

record Build =
  DEBUG_BUILD :: bool
  DEFAULT_HOOKS :: "string list"

text \<open>
  What the function bound to a hook name has captured: \<open>operation\<close>, \<open>internalHooks\<close>
  and \<open>internalHook\<close>.
\<close>

record Closure =
  c_operation :: string
  c_internalHooks :: "string list"
  c_internalHook :: string

text \<open>
  The loop over the operations. The accumulator holds the warnings logged so far and the
  assignments \<open>mixins[internalHook] = ...\<close> in the order they are made. Iterating a value
  that is not iterable throws.
\<close>

fun bindHooks ::
  "bool \<Rightarrow> string list \<Rightarrow> string list \<times> (string \<times> Closure) list
     \<Rightarrow> Error + (string list \<times> (string \<times> Closure) list)" where
  "bindHooks dbg [] acc = Inr acc"
| "bindHooks dbg (operation # rest) (warns, mixins) =
     (case HOOKS operation of
        Undefined \<Rightarrow>
          bindHooks dbg rest
            (if dbg then warns @ [''Unknown hook: '' @ operation] else warns, mixins)
      | Inherited \<Rightarrow> Inl TypeError
      | Hooks internalHooks \<Rightarrow>
          bindHooks dbg rest
            (warns,
             mixins @ map (\<lambda>internalHook.
                        (internalHook,
                         \<lparr> c_operation = operation, c_internalHooks = internalHooks,
                           c_internalHook = internalHook \<rparr>)) internalHooks))"

definition createTracingMixins ::
  "Build \<Rightarrow> TracingOptions \<Rightarrow> Error + (string list \<times> (string \<times> Closure) list)" where
  "createTracingMixins build options =
     bindHooks (DEBUG_BUILD build)
       (removeDuplicates
          ((case hooks options of None \<Rightarrow> [] | Some hs \<Rightarrow> hs) @ DEFAULT_HOOKS build))
       ([], [])"

text \<open>Reading \<open>mixins[hook]\<close>: the last assignment to the name is the one that stands.\<close>

definition mixinOf :: "(string \<times> Closure) list \<Rightarrow> string \<Rightarrow> Closure option" where
  "mixinOf mixins hook = map_of (rev mixins) hook"

section \<open>Vue lifecycle tracing: the hooks\<close>

text \<open>
  A span is known by its identity: the \<open>n\<close>-th span that \<open>startInactiveSpan\<close> returned, or
  a span of the tracer that this module did not start (what \<open>getActiveSpan\<close> returns).
\<close>

datatype Span = Started nat | Foreign nat

record SpanContext =
  span_name :: string
  span_op :: string
  span_origin :: string

text \<open>
  The calls made on the tracer, in the order they are made. \<open>SpanEnd s ts at\<close> is
  \<open>s.end(ts)\<close> (\<open>ts\<close> absent for \<open>s.end()\<close>) made when the clock stood at \<open>at\<close>.
\<close>

datatype TracerCall = StartInactiveSpan SpanContext | SpanEnd Span "rat option" nat

text \<open>\<open>DataSentry\<close>, the members of \<open>vm.$data\<close> that the mixin's \<open>data()\<close> adds.\<close>

record DataSentry =
  sentrySpans :: "(string \<Rightarrow> Span option) option"
  sentryRootSpan :: "Span option"
  sentryRootSpanTimer :: "nat option"

text \<open>
  A pending \<open>setTimeout\<close> of \<open>finishRootSpan\<close>: its handle, the \<open>vm\<close> and \<open>timestamp\<close> its
  callback has captured, and the time (milliseconds) at which it is due.
\<close>

record Timeout =
  handle :: nat
  t_vm :: nat
  t_timestamp :: rat
  due :: nat

text \<open>
  The state the hooks work on: \<open>$data\<close> of every component instance (an instance is known
  by its identity), the tracer's call log, the pending timers in the order they were set,
  the next timer handle (handles are positive, hence truthy) and the clock in milliseconds.
\<close>

record World =
  data :: "nat \<Rightarrow> DataSentry"
  calls :: "TracerCall list"
  pending :: "Timeout list"
  nextHandle :: nat
  clock :: nat

text \<open>
  What the host framework gives for an instance: \<open>vm.$root\<close>, and the display name
  \<open>formatComponentName(vm, false)\<close>.
\<close>

record Tree =
  vm_root :: "nat \<Rightarrow> nat"
  formatComponentName :: "nat \<Rightarrow> string"

definition VUE_OP :: string where
  "VUE_OP = ''ui.vue''"

text \<open>The state after \<open>data()\<close> has run for every instance and nothing else has happened.\<close>

definition initialWorld :: World where
  "initialWorld =
     \<lparr> data = (\<lambda>_. \<lparr> sentrySpans = None, sentryRootSpan = None, sentryRootSpanTimer = None \<rparr>),
       calls = [], pending = [], nextHandle = 1, clock = 0 \<rparr>"

text \<open>
  The tracer and the timers. \<open>startInactiveSpan\<close> returns a span it has not returned
  before; \<open>setTimeout\<close> returns a handle it has not returned before; \<open>clearTimeout\<close>
  of a handle that is not pending does nothing. \<open>timestampInSeconds\<close> reads the same
  clock that the timers run on.
\<close>

fun started :: "TracerCall list \<Rightarrow> SpanContext list" where
  "started [] = []"
| "started (StartInactiveSpan c # cs) = c # started cs"
| "started (SpanEnd _ _ _ # cs) = started cs"

definition startInactiveSpan :: "SpanContext \<Rightarrow> World \<Rightarrow> Span \<times> World" where
  "startInactiveSpan c w =
     (Started (length (started (calls w))), w\<lparr>calls := calls w @ [StartInactiveSpan c]\<rparr>)"

definition spanEnd :: "Span \<Rightarrow> rat option \<Rightarrow> World \<Rightarrow> World" where
  "spanEnd s ts w = w\<lparr>calls := calls w @ [SpanEnd s ts (clock w)]\<rparr>"

definition timestampInSeconds :: "World \<Rightarrow> rat" where
  "timestampInSeconds w = of_nat (clock w) / 1000"

definition setData :: "nat \<Rightarrow> (DataSentry \<Rightarrow> DataSentry) \<Rightarrow> World \<Rightarrow> World" where
  "setData vm f w = w\<lparr>data := (data w)(vm := f (data w vm))\<rparr>"

definition clearTimeout :: "nat \<Rightarrow> World \<Rightarrow> World" where
  "clearTimeout h w = w\<lparr>pending := filter (\<lambda>t. handle t \<noteq> h) (pending w)\<rparr>"

definition setTimeout :: "nat \<Rightarrow> rat \<Rightarrow> nat \<Rightarrow> World \<Rightarrow> nat \<times> World" where
  "setTimeout vm timestamp delay w =
     (nextHandle w,
      w\<lparr>pending := pending w @
           [\<lparr> handle = nextHandle w, t_vm = vm, t_timestamp = timestamp,
              due = clock w + delay \<rparr>],
        nextHandle := Suc (nextHandle w)\<rparr>)"

text \<open>
  \<open>finishRootSpan\<close> (lines 282 to 293): the timer handle is read from and stored on
  \<open>vm\<close> itself.
\<close>

definition finishRootSpan :: "nat \<Rightarrow> rat \<Rightarrow> nat \<Rightarrow> World \<Rightarrow> World" where
  "finishRootSpan vm timestamp tmo w =
     (let w1 = (case sentryRootSpanTimer (data w vm) of
                  Some h \<Rightarrow> clearTimeout h w
                | None \<Rightarrow> w);
          (h, w2) = setTimeout vm timestamp tmo w1
      in setData vm (\<lambda>d. d\<lparr>sentryRootSpanTimer := Some h\<rparr>) w2)"

text \<open>
  The callback that \<open>finishRootSpan\<close> hands to \<open>setTimeout\<close> (lines 287 to 292). It
  leaves the stored timer handle as it is.
\<close>

definition finishRootSpanCallback :: "Tree \<Rightarrow> nat \<Rightarrow> rat \<Rightarrow> World \<Rightarrow> World" where
  "finishRootSpanCallback env vm timestamp w =
     (case sentryRootSpan (data w (vm_root env vm)) of
        None \<Rightarrow> w
      | Some s \<Rightarrow>
          setData (vm_root env vm) (\<lambda>d. d\<lparr>sentryRootSpan := None\<rparr>)
            (spanEnd s (Some timestamp) w))"

text \<open>
  \<open>Array.isArray(options.trackComponents) ? options.trackComponents.indexOf(name) > -1
  : options.trackComponents\<close>, read as a condition.
\<close>

definition shouldTrack :: "TrackComponents \<Rightarrow> string \<Rightarrow> bool" where
  "shouldTrack tc name =
     (case tc of
        Names ns \<Rightarrow> indexOf ns name > -1
      | Flag b \<Rightarrow> b
      | Absent \<Rightarrow> False)"

text \<open>
  The body of the function bound to a hook (lines 319 to 381), in its parts. \<open>act\<close> is
  what \<open>getActiveSpan()\<close> returns while the hook runs; the hook starts inactive spans
  only, so both of its calls of \<open>getActiveSpan()\<close> return the same.

  First part (\<open>if (isRoot) ...\<close>, lines 322 to 335): on the root instance, under an
  active span, the root span is kept if there is one, and started otherwise.
\<close>

definition ensureRootSpan :: "Tree \<Rightarrow> nat \<Rightarrow> Span option \<Rightarrow> World \<Rightarrow> World" where
  "ensureRootSpan env this act w =
     (if vm_root env this = this then
        (case act of
           None \<Rightarrow> w
         | Some _ \<Rightarrow>
             (case sentryRootSpan (data w this) of
                Some _ \<Rightarrow> w
              | None \<Rightarrow>
                  (let (s, w1) = startInactiveSpan
                         \<lparr> span_name = ''Application Render'',
                           span_op = VUE_OP @ ''.render'',
                           span_origin = ''auto.ui.vue'' \<rparr> w
                   in setData this (\<lambda>d. d\<lparr>sentryRootSpan := Some s\<rparr>) w1)))
      else w)"

text \<open>\<open>(this.$root && this.$root.$data._sentryRootSpan) || getActiveSpan()\<close>\<close>

definition startingContext :: "Tree \<Rightarrow> nat \<Rightarrow> Span option \<Rightarrow> World \<Rightarrow> Span option" where
  "startingContext env this act w =
     (case sentryRootSpan (data w (vm_root env this)) of
        Some s \<Rightarrow> Some s
      | None \<Rightarrow> act)"

definition spanOf :: "World \<Rightarrow> nat \<Rightarrow> string \<Rightarrow> Span option" where
  "spanOf w vm operation =
     (case sentrySpans (data w vm) of None \<Rightarrow> None | Some m \<Rightarrow> m operation)"

text \<open>
  The branch of a before-hook (\<open>internalHook == internalHooks[0]\<close>, lines 353 to 370).
  \<open>spanOf\<close> reads \<open>vm.$data._sentrySpans[operation]\<close>.
\<close>

definition beforeHook :: "Tree \<Rightarrow> string \<Rightarrow> nat \<Rightarrow> Span option \<Rightarrow> World \<Rightarrow> World" where
  "beforeHook env operation this act w =
     (case startingContext env this act w of
        None \<Rightarrow> w
      | Some _ \<Rightarrow>
          (let w1 = (case spanOf w this operation of
                       Some oldSpan \<Rightarrow> spanEnd oldSpan None w
                     | None \<Rightarrow> w);
               (s, w2) = startInactiveSpan
                      \<lparr> span_name = ''Vue <'' @ formatComponentName env this @ ''>'',
                        span_op = VUE_OP @ ''.'' @ operation,
                        span_origin = ''auto.ui.vue'' \<rparr> w1
           in setData this
                (\<lambda>d. d\<lparr>sentrySpans :=
                         Some ((case sentrySpans d of None \<Rightarrow> Map.empty | Some m \<Rightarrow> m)
                                 (operation \<mapsto> s))\<rparr>) w2))"

text \<open>
  The branch of an after-hook (lines 373 to 379). The entry of the operation in
  \<open>_sentrySpans\<close> is read and not written.
\<close>

definition afterHook :: "TracingOptions \<Rightarrow> string \<Rightarrow> nat \<Rightarrow> World \<Rightarrow> World" where
  "afterHook options operation this w =
     (case spanOf w this operation of
        None \<Rightarrow> w
      | Some s \<Rightarrow>
          (let w1 = spanEnd s None w
           in finishRootSpan this (timestampInSeconds w1) (timeout options) w1))"

text \<open>\<open>this.$data._sentrySpans = this.$data._sentrySpans || {}\<close> (line 348)\<close>

definition initSpans :: "nat \<Rightarrow> World \<Rightarrow> World" where
  "initSpans this w =
     setData this
       (\<lambda>d. d\<lparr>sentrySpans := Some (case sentrySpans d of None \<Rightarrow> Map.empty | Some m \<Rightarrow> m)\<rparr>) w"

definition lifecycleHook ::
  "Tree \<Rightarrow> TracingOptions \<Rightarrow> Closure \<Rightarrow> nat \<Rightarrow> Span option \<Rightarrow> World \<Rightarrow> World" where
  "lifecycleHook env options c this act w =
     (let isRoot = (vm_root env this = this);
          w1 = ensureRootSpan env this act w;
          name = formatComponentName env this;
          track = shouldTrack (trackComponents options) name
      in if \<not> isRoot \<and> \<not> track then w1
         else
           (let w2 = initSpans this w1
            in if (case c_internalHooks c of [] \<Rightarrow> False | h # _ \<Rightarrow> c_internalHook c = h)
               then beforeHook env (c_operation c) this act w2
               else afterHook options (c_operation c) this w2))"

section \<open>Vue lifecycle tracing: the event loop\<close>

text \<open>A pending timer fires: it leaves the pending list and its callback runs.\<close>

definition fire :: "Tree \<Rightarrow> nat \<Rightarrow> World \<Rightarrow> World" where
  "fire env h w =
     (case find (\<lambda>t. handle t = h) (pending w) of
        None \<Rightarrow> w
      | Some t \<Rightarrow>
          finishRootSpanCallback env (t_vm t) (t_timestamp t)
            (w\<lparr>pending := filter (\<lambda>t. handle t \<noteq> h) (pending w)\<rparr>))"

text \<open>
  What can happen: the framework calls a hook of the table on an instance (with what
  \<open>getActiveSpan\<close> returns meanwhile), a timer fires, or time passes.
\<close>

datatype Event = HookCall nat string "Span option" | TimerFire nat | Tick nat

fun step ::
  "Tree \<Rightarrow> TracingOptions \<Rightarrow> (string \<times> Closure) list \<Rightarrow> Event \<Rightarrow> World \<Rightarrow> World" where
  "step env options mixins (HookCall vm hook act) w =
     (case mixinOf mixins hook of
        None \<Rightarrow> w
      | Some c \<Rightarrow> lifecycleHook env options c vm act w)"
| "step env options mixins (TimerFire h) w = fire env h w"
| "step env options mixins (Tick t) w = w\<lparr>clock := max (clock w) t\<rparr>"

definition run ::
  "Tree \<Rightarrow> TracingOptions \<Rightarrow> (string \<times> Closure) list \<Rightarrow> Event list \<Rightarrow> World \<Rightarrow> World" where
  "run env options mixins evs w = foldl (\<lambda>w ev. step env options mixins ev w) w evs"

text \<open>
  Time passes until \<open>t\<close>: the timers due by then fire in the order of their due times
  (timers due together, in the order they were set), each at its due time. A callback of
  \<open>finishRootSpan\<close> sets no timer, so the timers to fire are known beforehand.
\<close>

definition dueTimers :: "nat \<Rightarrow> World \<Rightarrow> Timeout list" where
  "dueTimers t w = sort_key due (filter (\<lambda>x. due x \<le> t) (pending w))"

definition advance :: "Tree \<Rightarrow> nat \<Rightarrow> World \<Rightarrow> World" where
  "advance env t w =
     (foldl (\<lambda>w x. fire env (handle x) (w\<lparr>clock := due x\<rparr>)) w (dueTimers t w))\<lparr>clock := t\<rparr>"


text \<open>
  What the properties observe: the \<open>end\<close> calls made on a span, whether a span is a root
  span (one started with the tag \<open>ui.vue.render\<close>), and the pending timers that an
  instance has set.
\<close>

definition endCalls :: "World \<Rightarrow> Span \<Rightarrow> TracerCall list" where
  "endCalls w s = filter (\<lambda>c. case c of SpanEnd s' _ _ \<Rightarrow> s' = s | _ \<Rightarrow> False) (calls w)"

definition isRootSpan :: "World \<Rightarrow> Span \<Rightarrow> bool" where
  "isRootSpan w s =
     (case s of
        Started i \<Rightarrow> i < length (started (calls w)) \<and>
                     span_op (started (calls w) ! i) = VUE_OP @ ''.render''
      | Foreign _ \<Rightarrow> False)"

definition timersOf :: "World \<Rightarrow> nat \<Rightarrow> Timeout list" where
  "timersOf w vm = filter (\<lambda>t. t_vm t = vm) (pending w)"

section \<open>Notions the properties are stated with\<close>

text \<open>
  The assignments the loop of \<open>createTracingMixins\<close> makes for one operation, and the
  operations it loops over.
\<close>

definition bindingsOf :: "string \<Rightarrow> (string \<times> Closure) list" where
  "bindingsOf operation =
     (case HOOKS operation of
        Hooks internalHooks \<Rightarrow>
          map (\<lambda>internalHook.
                 (internalHook,
                  \<lparr> c_operation = operation, c_internalHooks = internalHooks,
                    c_internalHook = internalHook \<rparr>)) internalHooks
      | _ \<Rightarrow> [])"

definition resolvedOperations :: "Build \<Rightarrow> TracingOptions \<Rightarrow> string list" where
  "resolvedOperations build options =
     removeDuplicates
       ((case hooks options of None \<Rightarrow> [] | Some hs \<Rightarrow> hs) @ DEFAULT_HOOKS build)"

text \<open>The operation a hook name belongs to; it shows that no two operations share a hook.\<close>

definition hookOperation :: "string \<Rightarrow> string" where
  "hookOperation h =
     (if h = ''activated'' \<or> h = ''deactivated'' then ''activate''
      else if h = ''beforeCreate'' \<or> h = ''created'' then ''create''
      else if h = ''beforeUnmount'' \<or> h = ''unmounted'' then ''unmount''
      else if h = ''beforeDestroy'' \<or> h = ''destroyed'' then ''destroy''
      else if h = ''beforeMount'' \<or> h = ''mounted'' then ''mount''
      else ''update'')"

text \<open>
  The two tests of the hook function: \<open>isRoot || shouldTrack\<close>, and
  \<open>internalHook == internalHooks[0]\<close>.
\<close>

definition tracked :: "Tree \<Rightarrow> TracingOptions \<Rightarrow> nat \<Rightarrow> bool" where
  "tracked env options vm \<longleftrightarrow>
     vm_root env vm = vm \<or> shouldTrack (trackComponents options) (formatComponentName env vm)"

definition isBefore :: "Closure \<Rightarrow> bool" where
  "isBefore c = (case c_internalHooks c of [] \<Rightarrow> False | h # _ \<Rightarrow> c_internalHook c = h)"

text \<open>The root spans started so far.\<close>

definition rootSpansStarted :: "World \<Rightarrow> SpanContext list" where
  "rootSpansStarted w = filter (\<lambda>x. span_op x = VUE_OP @ ''.render'') (started (calls w))"

text \<open>The timers left pending once \<open>finishRootSpan\<close> has cleared the handle stored on \<open>vm\<close>.\<close>

definition cancelled :: "World \<Rightarrow> nat \<Rightarrow> Timeout list" where
  "cancelled w vm =
     (case sentryRootSpanTimer (data w vm) of
        Some h \<Rightarrow> filter (\<lambda>t. handle t \<noteq> h) (pending w)
      | None \<Rightarrow> pending w)"


subsection \<open>Invariants\<close>

text \<open>
  What holds of the spans in every state the hooks and timers can reach: a stored root
  span is a root span that has not been ended; no two instances store the same root span;
  a span stored for an operation has been started and is no root span; a root span has
  been ended at most once; and only spans that have been started have been ended.
\<close>

definition spansOk :: "World \<Rightarrow> bool" where
  "spansOk w \<longleftrightarrow>
     (\<forall>v s. sentryRootSpan (data w v) = Some s \<longrightarrow> isRootSpan w s \<and> endCalls w s = []) \<and>
     (\<forall>v v' s. sentryRootSpan (data w v) = Some s \<and> sentryRootSpan (data w v') = Some s
        \<longrightarrow> v = v') \<and>
     (\<forall>v operation s. spanOf w v operation = Some s \<longrightarrow>
        (\<exists>i. s = Started i \<and> i < length (started (calls w))) \<and> \<not> isRootSpan w s) \<and>
     (\<forall>s. isRootSpan w s \<longrightarrow> length (endCalls w s) \<le> 1) \<and>
     (\<forall>s ts clk. SpanEnd s ts clk \<in> set (calls w) \<longrightarrow>
        (\<exists>i. s = Started i \<and> i < length (started (calls w))))"

text \<open>
  What holds of the timers: the handle of a pending timer has been handed out, it is the
  handle stored on the instance that set the timer, and no two pending timers share a
  handle.
\<close>

definition timersOk :: "World \<Rightarrow> bool" where
  "timersOk w \<longleftrightarrow>
     (\<forall>t \<in> set (pending w).
        handle t < nextHandle w \<and> sentryRootSpanTimer (data w (t_vm t)) = Some (handle t)) \<and>
     distinct (map handle (pending w))"

text \<open>
  What holds of the spans of operations: a span stored for an operation of an instance
  has been started with the name of that instance and the tag of that operation; no span
  is stored in two places; and every span of an operation that has been started and not
  ended is stored. So the open spans are stored ones, each in one slot, and a slot holds
  one span: an instance has at most one open span for an operation.
\<close>

definition slotsOk :: "Tree \<Rightarrow> World \<Rightarrow> bool" where
  "slotsOk env w \<longleftrightarrow>
     (\<forall>v operation s. spanOf w v operation = Some s \<longrightarrow>
        (\<exists>i. s = Started i \<and> i < length (started (calls w)) \<and>
             started (calls w) ! i =
               \<lparr> span_name = ''Vue <'' @ formatComponentName env v @ ''>'',
                 span_op = VUE_OP @ ''.'' @ operation,
                 span_origin = ''auto.ui.vue'' \<rparr>)) \<and>
     (\<forall>v operation v' operation' s.
        spanOf w v operation = Some s \<and> spanOf w v' operation' = Some s \<longrightarrow>
        v = v' \<and> operation = operation') \<and>
     (\<forall>i. i < length (started (calls w)) \<and>
          span_op (started (calls w) ! i) \<noteq> VUE_OP @ ''.render'' \<and>
          endCalls w (Started i) = [] \<longrightarrow>
          (\<exists>v operation. spanOf w v operation = Some (Started i)))"





subsection \<open>A small application\<close>

text \<open>
  A tree with the root \<open>0\<close> (\<open>Root\<close>) and the components \<open>2\<close> (\<open>Foo\<close>) and \<open>3\<close>
  (\<open>Bar\<close>), the default operations, every component tracked and a quiet period of 100
  milliseconds.
\<close>

definition exampleBuild :: Build where
  "exampleBuild = \<lparr> DEBUG_BUILD = True, DEFAULT_HOOKS = [''activate'', ''mount'', ''update''] \<rparr>"

definition exampleOptions :: TracingOptions where
  "exampleOptions = \<lparr> hooks = None, trackComponents = Flag True, timeout = 100 \<rparr>"

definition fooOptions :: TracingOptions where
  "fooOptions = \<lparr> hooks = None, trackComponents = Names [''Foo''], timeout = 100 \<rparr>"

definition exampleTree :: Tree where
  "exampleTree =
     \<lparr> vm_root = (\<lambda>_. 0),
       formatComponentName =
         (\<lambda>vm. if vm = 0 then ''Root'' else if vm = 2 then ''Foo'' else ''Bar'') \<rparr>"

definition exampleMixins :: "(string \<times> Closure) list" where
  "exampleMixins = concat (map bindingsOf [''activate'', ''mount'', ''update''])"

definition beforeMountClosure :: Closure where
  "beforeMountClosure =
     \<lparr> c_operation = ''mount'', c_internalHooks = [''beforeMount'', ''mounted''],
       c_internalHook = ''beforeMount'' \<rparr>"

definition mountedClosure :: Closure where
  "mountedClosure =
     \<lparr> c_operation = ''mount'', c_internalHooks = [''beforeMount'', ''mounted''],
       c_internalHook = ''mounted'' \<rparr>"

text \<open>
  The root and \<open>Foo\<close> start to mount under an active span; \<open>Foo\<close> is mounted at 5 and
  the root at 7.
\<close>

definition exampleEvents :: "Event list" where
  "exampleEvents =
     [HookCall 0 ''beforeMount'' (Some (Foreign 0)),
      HookCall 2 ''beforeMount'' None,
      Tick 5,
      HookCall 2 ''mounted'' None,
      Tick 7,
      HookCall 0 ''mounted'' None]"

definition mountStarted :: World where
  "mountStarted =
     run exampleTree exampleOptions exampleMixins
       [HookCall 0 ''beforeMount'' (Some (Foreign 0)), HookCall 2 ''beforeMount'' None, Tick 5]
       initialWorld"

definition bothMounted :: World where
  "bothMounted = run exampleTree exampleOptions exampleMixins exampleEvents initialWorld"


section \<open>Lemmas: the hook table\<close>

lemma indexFrom_notin: "v \<notin> set xs \<Longrightarrow> indexFrom i xs v = -1"
  by (induction xs arbitrary: i) auto

lemma indexFrom_in:
  "v \<in> set xs \<Longrightarrow> \<exists>k<length xs. indexFrom i xs v = int (i + k) \<and> xs ! k = v"
proof (induction xs arbitrary: i)
  case Nil
  then show ?case by simp
next
  case (Cons x xs)
  show ?case
  proof (cases "x = v")
    case True
    then show ?thesis by (intro exI[of _ 0]) simp
  next
    case False
    with Cons.prems have "v \<in> set xs" by simp
    from Cons.IH[OF this, of "Suc i"] obtain k where
      k: "k < length xs" "indexFrom (Suc i) xs v = int (Suc i + k)" "xs ! k = v" by blast
    with False show ?thesis by (intro exI[of _ "Suc k"]) simp
  qed
qed

lemma indexOf_gt: "(indexOf xs v > -1) = (v \<in> set xs)"
proof (cases "v \<in> set xs")
  case True
  from indexFrom_in[OF this, of 0] show ?thesis using True by (auto simp: indexOf_def)
next
  case False
  then show ?thesis by (simp add: indexOf_def indexFrom_notin)
qed

lemma set_removeDuplicates: "set (removeDuplicates xs) = set xs"
proof
  show "set (removeDuplicates xs) \<subseteq> set xs"
    by (auto simp: removeDuplicates_def in_set_enumerate_eq)
  show "set xs \<subseteq> set (removeDuplicates xs)"
  proof
    fix v assume "v \<in> set xs"
    from indexFrom_in[OF this, of 0] obtain k where
      k: "k < length xs" "indexOf xs v = int k" "xs ! k = v" by (auto simp: indexOf_def)
    then have "(k, v) \<in> set (filter (\<lambda>(index, val). indexOf xs val = int index) (enumerate 0 xs))"
      by (simp add: in_set_enumerate_eq)
    then show "v \<in> set (removeDuplicates xs)"
      unfolding removeDuplicates_def by force
  qed
qed

lemma distinct_removeDuplicates: "distinct (removeDuplicates xs)"
proof -
  let ?kept = "filter (\<lambda>(index, val). indexOf xs val = int index) (enumerate 0 xs)"
  have "distinct ?kept" by (simp add: distinct_enumerate)
  moreover have "inj_on snd (set ?kept)"
    by (rule inj_onI) auto
  ultimately show ?thesis
    unfolding removeDuplicates_def by (simp add: distinct_map)
qed

lemma bindHooks_acc:
  "\<forall>operation \<in> set ops. HOOKS operation \<noteq> Inherited \<Longrightarrow>
   bindHooks dbg ops (warns, mixins) =
     Inr (warns @ (if dbg then map (\<lambda>operation. ''Unknown hook: '' @ operation)
                                  (filter (\<lambda>operation. HOOKS operation = Undefined) ops)
                   else []),
          mixins @ concat (map bindingsOf ops))"
proof (induction ops arbitrary: warns mixins)
  case Nil
  then show ?case by simp
next
  case (Cons operation ops)
  then show ?case
    by (cases "HOOKS operation") (simp_all add: bindingsOf_def)
qed

lemma bindHooks_Inherited:
  "operation \<in> set ops \<Longrightarrow> HOOKS operation = Inherited \<Longrightarrow>
   \<forall>o' \<in> set (takeWhile (\<lambda>x. x \<noteq> operation) ops). HOOKS o' \<noteq> Inherited \<Longrightarrow>
   bindHooks dbg ops acc = Inl TypeError"
proof (induction ops arbitrary: acc)
  case Nil
  then show ?case by simp
next
  case (Cons x ops)
  obtain warns mixins where acc: "acc = (warns, mixins)" by (cases acc)
  show ?case
  proof (cases "x = operation")
    case True
    with Cons.prems acc show ?thesis by simp
  next
    case False
    with Cons.prems have "HOOKS x \<noteq> Inherited" by simp
    with Cons False acc show ?thesis by (cases "HOOKS x") auto
  qed
qed

lemma HOOKS_cases:
  "HOOKS operation = Hooks hs \<Longrightarrow>
     (operation = ''activate'' \<and> hs = [''activated'', ''deactivated'']) \<or>
     (operation = ''create'' \<and> hs = [''beforeCreate'', ''created'']) \<or>
     (operation = ''unmount'' \<and> hs = [''beforeUnmount'', ''unmounted'']) \<or>
     (operation = ''destroy'' \<and> hs = [''beforeDestroy'', ''destroyed'']) \<or>
     (operation = ''mount'' \<and> hs = [''beforeMount'', ''mounted'']) \<or>
     (operation = ''update'' \<and> hs = [''beforeUpdate'', ''updated''])"
  unfolding HOOKS_def by (simp split: if_splits)

lemma hookOperation_lits:
  "hookOperation ''activated'' = ''activate''" "hookOperation ''deactivated'' = ''activate''"
  "hookOperation ''beforeCreate'' = ''create''" "hookOperation ''created'' = ''create''"
  "hookOperation ''beforeUnmount'' = ''unmount''" "hookOperation ''unmounted'' = ''unmount''"
  "hookOperation ''beforeDestroy'' = ''destroy''" "hookOperation ''destroyed'' = ''destroy''"
  "hookOperation ''beforeMount'' = ''mount''" "hookOperation ''mounted'' = ''mount''"
  "hookOperation ''beforeUpdate'' = ''update''" "hookOperation ''updated'' = ''update''"
  by (simp_all add: hookOperation_def)

lemma hookOperation_Hooks:
  assumes "HOOKS a = Hooks hs" "h \<in> set hs" shows "hookOperation h = a"
  using HOOKS_cases[OF assms(1)] assms(2) by (auto simp: hookOperation_lits)

lemma bindingsOf_Hooks:
  "h \<in> fst ` set (bindingsOf a) \<Longrightarrow> \<exists>hs. HOOKS a = Hooks hs \<and> h \<in> set hs"
  by (cases "HOOKS a") (auto simp: bindingsOf_def)

lemma hook_owner:
  assumes "h \<in> fst ` set (bindingsOf a)" "h \<in> fst ` set (bindingsOf b)" shows "a = b"
proof -
  from bindingsOf_Hooks[OF assms(1)] hookOperation_Hooks have "hookOperation h = a" by blast
  moreover from bindingsOf_Hooks[OF assms(2)] hookOperation_Hooks have "hookOperation h = b" by blast
  ultimately show ?thesis by simp
qed

lemma distinct_Hooks: "HOOKS a = Hooks hs \<Longrightarrow> distinct hs"
  using HOOKS_cases[of a hs] by auto

lemma distinct_bindingsOf: "distinct (map fst (bindingsOf a))"
proof (cases "HOOKS a")
  case (Hooks hs)
  with distinct_Hooks[OF Hooks] show ?thesis by (simp add: bindingsOf_def comp_def)
qed (simp_all add: bindingsOf_def)

lemma distinct_bindings:
  "distinct ops \<Longrightarrow> distinct (map fst (concat (map bindingsOf ops)))"
proof (induction ops)
  case Nil
  then show ?case by simp
next
  case (Cons a ops)
  have "fst ` set (bindingsOf a) \<inter> fst ` set (concat (map bindingsOf ops)) = {}"
  proof (rule ccontr)
    assume "\<not> ?thesis"
    then obtain h where h: "h \<in> fst ` set (bindingsOf a)"
      "h \<in> fst ` set (concat (map bindingsOf ops))" by blast
    from h(2) obtain b where b: "b \<in> set ops" "h \<in> fst ` set (bindingsOf b)" by auto
    from hook_owner[OF h(1) b(2)] b(1) Cons.prems show False by simp
  qed
  with Cons distinct_bindingsOf[of a] show ?case by simp
qed

lemma indexFrom_append_in:
  "v \<in> set xs \<Longrightarrow> indexFrom i (xs @ ys) v = indexFrom i xs v"
  by (induction xs arbitrary: i) auto

lemma indexFrom_append_notin:
  "v \<notin> set xs \<Longrightarrow> indexFrom i (xs @ ys) v = indexFrom (i + length xs) ys v"
  by (induction xs arbitrary: i) auto

lemma indexFrom_lt:
  "v \<in> set xs \<Longrightarrow> indexFrom i xs v < int (i + length xs)"
  using indexFrom_in[of v xs i] by auto

lemma removeDuplicates_Nil [simp]: "removeDuplicates [] = []"
  by (simp add: removeDuplicates_def enumerate_eq_zip)

lemma removeDuplicates_snoc:
  "removeDuplicates (xs @ [x]) =
     (if x \<in> set xs then removeDuplicates xs else removeDuplicates xs @ [x])"
proof -
  have e: "enumerate 0 (xs @ [x]) = enumerate 0 xs @ [(length xs, x)]"
    by (simp add: enumerate_append_eq)
  have f: "filter (\<lambda>(index, val). indexOf (xs @ [x]) val = int index) (enumerate 0 xs) =
           filter (\<lambda>(index, val). indexOf xs val = int index) (enumerate 0 xs)"
    by (rule filter_cong)
       (auto simp: indexOf_def in_set_enumerate_eq indexFrom_append_in)
  have l: "(indexOf (xs @ [x]) x = int (length xs)) = (x \<notin> set xs)"
  proof (cases "x \<in> set xs")
    case True
    then show ?thesis
      using indexFrom_lt[OF True, of 0] by (simp add: indexOf_def indexFrom_append_in)
  next
    case False
    then show ?thesis by (simp add: indexOf_def indexFrom_append_notin)
  qed
  show ?thesis
    unfolding removeDuplicates_def e using f l by simp
qed

lemma removeDuplicates_first: "removeDuplicates xs = rev (remdups (rev xs))"
  by (induction xs rule: rev_induct) (simp_all add: removeDuplicates_snoc)

section \<open>Lemmas: spans\<close>

lemma started_append [simp]: "started (xs @ ys) = started xs @ started ys"
  by (induction xs rule: started.induct) auto

lemma isRootSpan_calls: "calls w' = calls w \<Longrightarrow> isRootSpan w' s = isRootSpan w s"
  by (cases s) (simp_all add: isRootSpan_def)

lemma endCalls_calls: "calls w' = calls w \<Longrightarrow> endCalls w' s = endCalls w s"
  by (simp add: endCalls_def)

lemma isRootSpan_end:
  "calls w' = calls w @ [SpanEnd x ts clk] \<Longrightarrow> isRootSpan w' s = isRootSpan w s"
  by (cases s) (simp_all add: isRootSpan_def)

lemma isRootSpan_start:
  "calls w' = calls w @ [StartInactiveSpan c] \<Longrightarrow>
   isRootSpan w' s =
     (isRootSpan w s \<or>
      (s = Started (length (started (calls w))) \<and> span_op c = VUE_OP @ ''.render''))"
  by (cases s) (auto simp: isRootSpan_def nth_append)

lemma endCalls_end:
  "calls w' = calls w @ [SpanEnd x ts clk] \<Longrightarrow>
   endCalls w' s = endCalls w s @ (if x = s then [SpanEnd x ts clk] else [])"
  by (simp add: endCalls_def)

lemma endCalls_start:
  "calls w' = calls w @ [StartInactiveSpan c] \<Longrightarrow> endCalls w' s = endCalls w s"
  by (simp add: endCalls_def)

lemma endCalls_fresh:
  assumes "\<forall>s ts clk. SpanEnd s ts clk \<in> set (calls w) \<longrightarrow>
             (\<exists>i. s = Started i \<and> i < length (started (calls w)))"
  shows "endCalls w (Started (length (started (calls w)))) = []"
proof -
  have "\<forall>c \<in> set (calls w). \<not> (case c of SpanEnd s' _ _ \<Rightarrow> s' = Started (length (started (calls w))) | _ \<Rightarrow> False)"
  proof
    fix c assume c: "c \<in> set (calls w)"
    show "\<not> (case c of SpanEnd s' _ _ \<Rightarrow> s' = Started (length (started (calls w))) | _ \<Rightarrow> False)"
    proof (cases c)
      case (SpanEnd s ts clk)
      with c assms obtain i where "s = Started i" "i < length (started (calls w))" by blast
      with SpanEnd show ?thesis by simp
    qed simp
  qed
  then show ?thesis by (simp add: endCalls_def filter_empty_conv)
qed

lemma spansOk_same:
  assumes "spansOk w" "calls w' = calls w"
    "\<And>v. sentryRootSpan (data w' v) = sentryRootSpan (data w v)"
    "\<And>v operation. spanOf w' v operation = spanOf w v operation"
  shows "spansOk w'"
proof -
  have r: "\<And>s. isRootSpan w' s = isRootSpan w s" using assms(2) by (rule isRootSpan_calls)
  have e: "\<And>s. endCalls w' s = endCalls w s" using assms(2) by (rule endCalls_calls)
  from assms(1) show ?thesis
    unfolding spansOk_def r e assms(2) assms(3) assms(4) .
qed

lemma spansOk_end_op:
  assumes ok: "spansOk w" and x: "spanOf w v0 op0 = Some x"
    and c: "calls w' = calls w @ [SpanEnd x ts clk]"
    and r: "\<And>v. sentryRootSpan (data w' v) = sentryRootSpan (data w v)"
    and m: "\<And>v operation. spanOf w' v operation = spanOf w v operation"
  shows "spansOk w'"
proof -
  note R = isRootSpan_end[OF c] and E = endCalls_end[OF c]
  from ok x have xn: "\<not> isRootSpan w x" and xi: "\<exists>i. x = Started i \<and> i < length (started (calls w))"
    unfolding spansOk_def by blast+
  have 1: "\<forall>v s. sentryRootSpan (data w' v) = Some s \<longrightarrow> isRootSpan w' s \<and> endCalls w' s = []"
    using ok xn unfolding spansOk_def R E r by auto
  have 2: "\<forall>v v' s. sentryRootSpan (data w' v) = Some s \<and> sentryRootSpan (data w' v') = Some s \<longrightarrow> v = v'"
    using ok unfolding spansOk_def r by blast
  have 3: "\<forall>v operation s. spanOf w' v operation = Some s \<longrightarrow>
        (\<exists>i. s = Started i \<and> i < length (started (calls w'))) \<and> \<not> isRootSpan w' s"
    using ok unfolding spansOk_def R m c by simp
  have 4: "\<forall>s. isRootSpan w' s \<longrightarrow> length (endCalls w' s) \<le> 1"
    using ok xn unfolding spansOk_def R E by auto
  have 5: "\<forall>s ts clk. SpanEnd s ts clk \<in> set (calls w') \<longrightarrow>
        (\<exists>i. s = Started i \<and> i < length (started (calls w')))"
    using ok xi unfolding spansOk_def c by auto
  from 1 2 3 4 5 show ?thesis unfolding spansOk_def by blast
qed

lemma spansOk_end_root:
  assumes ok: "spansOk w" and x: "sentryRootSpan (data w r0) = Some x"
    and c: "calls w' = calls w @ [SpanEnd x ts clk]"
    and r: "\<And>v. sentryRootSpan (data w' v) = (if v = r0 then None else sentryRootSpan (data w v))"
    and m: "\<And>v operation. spanOf w' v operation = spanOf w v operation"
  shows "spansOk w'"
proof -
  note R = isRootSpan_end[OF c] and E = endCalls_end[OF c]
  from ok x have xr: "isRootSpan w x" and xe: "endCalls w x = []"
    unfolding spansOk_def by blast+
  from xr have xi: "\<exists>i. x = Started i \<and> i < length (started (calls w))"
    by (cases x) (simp_all add: isRootSpan_def)
  have 1: "\<forall>v s. sentryRootSpan (data w' v) = Some s \<longrightarrow> isRootSpan w' s \<and> endCalls w' s = []"
  proof (intro allI impI)
    fix v s assume a: "sentryRootSpan (data w' v) = Some s"
    then have v: "v \<noteq> r0" and s: "sentryRootSpan (data w v) = Some s" by (auto simp: r split: if_splits)
    from ok s x v have "s \<noteq> x" unfolding spansOk_def by blast
    with ok s show "isRootSpan w' s \<and> endCalls w' s = []" unfolding spansOk_def R E by auto
  qed
  have 2: "\<forall>v v' s. sentryRootSpan (data w' v) = Some s \<and> sentryRootSpan (data w' v') = Some s \<longrightarrow> v = v'"
  proof (intro allI impI)
    fix v v' s assume "sentryRootSpan (data w' v) = Some s \<and> sentryRootSpan (data w' v') = Some s"
    then have "sentryRootSpan (data w v) = Some s \<and> sentryRootSpan (data w v') = Some s"
      by (auto simp: r split: if_splits)
    with ok show "v = v'" unfolding spansOk_def by blast
  qed
  have 3: "\<forall>v operation s. spanOf w' v operation = Some s \<longrightarrow>
        (\<exists>i. s = Started i \<and> i < length (started (calls w'))) \<and> \<not> isRootSpan w' s"
    using ok unfolding spansOk_def R m c by simp
  have 4: "\<forall>s. isRootSpan w' s \<longrightarrow> length (endCalls w' s) \<le> 1"
    using ok xe unfolding spansOk_def R E by auto
  have 5: "\<forall>s ts clk. SpanEnd s ts clk \<in> set (calls w') \<longrightarrow>
        (\<exists>i. s = Started i \<and> i < length (started (calls w')))"
    using ok xi unfolding spansOk_def c by auto
  from 1 2 3 4 5 show ?thesis unfolding spansOk_def by blast
qed

lemma spansOk_start_root:
  assumes ok: "spansOk w" and x: "sentryRootSpan (data w r0) = None"
    and c: "calls w' = calls w @ [StartInactiveSpan ctx]"
    and o: "span_op ctx = VUE_OP @ ''.render''"
    and r: "\<And>v. sentryRootSpan (data w' v) =
               (if v = r0 then Some (Started (length (started (calls w))))
                else sentryRootSpan (data w v))"
    and m: "\<And>v operation. spanOf w' v operation = spanOf w v operation"
  shows "spansOk w'"
proof -
  note R = isRootSpan_start[OF c] and E = endCalls_start[OF c]
  let ?n = "Started (length (started (calls w)))"
  from ok have fresh: "endCalls w ?n = []"
    unfolding spansOk_def by (intro endCalls_fresh) blast
  have old: "\<And>v s. sentryRootSpan (data w v) = Some s \<Longrightarrow> s \<noteq> ?n"
  proof -
    fix v s assume "sentryRootSpan (data w v) = Some s"
    with ok have "isRootSpan w s" unfolding spansOk_def by blast
    then show "s \<noteq> ?n" by (cases s) (auto simp: isRootSpan_def)
  qed
  have 1: "\<forall>v s. sentryRootSpan (data w' v) = Some s \<longrightarrow> isRootSpan w' s \<and> endCalls w' s = []"
  proof (intro allI impI)
    fix v s assume a: "sentryRootSpan (data w' v) = Some s"
    show "isRootSpan w' s \<and> endCalls w' s = []"
    proof (cases "v = r0")
      case True
      with a have "s = ?n" by (simp add: r)
      with fresh o show ?thesis unfolding R E by simp
    next
      case False
      with a have "sentryRootSpan (data w v) = Some s" by (simp add: r)
      with ok show ?thesis unfolding spansOk_def R E by blast
    qed
  qed
  have 2: "\<forall>v v' s. sentryRootSpan (data w' v) = Some s \<and> sentryRootSpan (data w' v') = Some s \<longrightarrow> v = v'"
  proof (intro allI impI)
    fix v v' s assume a: "sentryRootSpan (data w' v) = Some s \<and> sentryRootSpan (data w' v') = Some s"
    show "v = v'"
    proof (cases "v = r0 \<or> v' = r0")
      case True
      with a old show ?thesis by (auto simp: r split: if_splits)
    next
      case False
      with a have "sentryRootSpan (data w v) = Some s \<and> sentryRootSpan (data w v') = Some s"
        by (simp add: r)
      with ok show ?thesis unfolding spansOk_def by blast
    qed
  qed
  have 3: "\<forall>v operation s. spanOf w' v operation = Some s \<longrightarrow>
        (\<exists>i. s = Started i \<and> i < length (started (calls w'))) \<and> \<not> isRootSpan w' s"
  proof (intro allI impI)
    fix v operation s assume "spanOf w' v operation = Some s"
    then have "spanOf w v operation = Some s" by (simp add: m)
    with ok have "(\<exists>i. s = Started i \<and> i < length (started (calls w))) \<and> \<not> isRootSpan w s"
      unfolding spansOk_def by blast
    then show "(\<exists>i. s = Started i \<and> i < length (started (calls w'))) \<and> \<not> isRootSpan w' s"
      unfolding R c by auto
  qed
  have 4: "\<forall>s. isRootSpan w' s \<longrightarrow> length (endCalls w' s) \<le> 1"
    using ok fresh unfolding spansOk_def R E by auto
  have 5: "\<forall>s ts clk. SpanEnd s ts clk \<in> set (calls w') \<longrightarrow>
        (\<exists>i. s = Started i \<and> i < length (started (calls w')))"
  proof (intro allI impI)
    fix s ts clk assume "SpanEnd s ts clk \<in> set (calls w')"
    then have "SpanEnd s ts clk \<in> set (calls w)" by (simp add: c)
    with ok obtain i where "s = Started i" "i < length (started (calls w))"
      unfolding spansOk_def by blast
    then show "\<exists>i. s = Started i \<and> i < length (started (calls w'))" by (simp add: c)
  qed
  from 1 2 3 4 5 show ?thesis unfolding spansOk_def by blast
qed

lemma spansOk_start_op:
  assumes ok: "spansOk w"
    and c: "calls w' = calls w @ [StartInactiveSpan ctx]"
    and o: "span_op ctx \<noteq> VUE_OP @ ''.render''"
    and r: "\<And>v. sentryRootSpan (data w' v) = sentryRootSpan (data w v)"
    and m: "\<And>v operation. spanOf w' v operation =
               (if v = v0 \<and> operation = op0 then Some (Started (length (started (calls w))))
                else spanOf w v operation)"
  shows "spansOk w'"
proof -
  note R = isRootSpan_start[OF c] and E = endCalls_start[OF c]
  let ?n = "Started (length (started (calls w)))"
  have 1: "\<forall>v s. sentryRootSpan (data w' v) = Some s \<longrightarrow> isRootSpan w' s \<and> endCalls w' s = []"
    using ok unfolding spansOk_def R E r by blast
  have 2: "\<forall>v v' s. sentryRootSpan (data w' v) = Some s \<and> sentryRootSpan (data w' v') = Some s \<longrightarrow> v = v'"
    using ok unfolding spansOk_def r by blast
  have 3: "\<forall>v operation s. spanOf w' v operation = Some s \<longrightarrow>
        (\<exists>i. s = Started i \<and> i < length (started (calls w'))) \<and> \<not> isRootSpan w' s"
  proof (intro allI impI)
    fix v operation s assume a: "spanOf w' v operation = Some s"
    show "(\<exists>i. s = Started i \<and> i < length (started (calls w'))) \<and> \<not> isRootSpan w' s"
    proof (cases "v = v0 \<and> operation = op0")
      case True
      with a have s: "s = ?n" by (simp add: m)
      have "\<not> isRootSpan w ?n" by (simp add: isRootSpan_def)
      with s o show ?thesis unfolding R c by simp
    next
      case False
      with a have "spanOf w v operation = Some s" by (auto simp: m split: if_splits)
      with ok have "(\<exists>i. s = Started i \<and> i < length (started (calls w))) \<and> \<not> isRootSpan w s"
        unfolding spansOk_def by blast
      then show ?thesis unfolding R c using o by auto
    qed
  qed
  have 4: "\<forall>s. isRootSpan w' s \<longrightarrow> length (endCalls w' s) \<le> 1"
    using ok o unfolding spansOk_def R E by auto
  have 5: "\<forall>s ts clk. SpanEnd s ts clk \<in> set (calls w') \<longrightarrow>
        (\<exists>i. s = Started i \<and> i < length (started (calls w')))"
  proof (intro allI impI)
    fix s ts clk assume "SpanEnd s ts clk \<in> set (calls w')"
    then have "SpanEnd s ts clk \<in> set (calls w)" by (simp add: c)
    with ok obtain i where "s = Started i" "i < length (started (calls w))"
      unfolding spansOk_def by blast
    then show "\<exists>i. s = Started i \<and> i < length (started (calls w'))" by (simp add: c)
  qed
  from 1 2 3 4 5 show ?thesis unfolding spansOk_def by blast
qed

lemma spanOf_setData_timer [simp]:
  "spanOf (setData v (\<lambda>d. d\<lparr>sentryRootSpanTimer := h\<rparr>) w) v' operation = spanOf w v' operation"
  by (simp add: spanOf_def setData_def)

lemma finishRootSpan_obs [simp]:
  "calls (finishRootSpan v ts tmo w) = calls w"
  "sentryRootSpan (data (finishRootSpan v ts tmo w) v') = sentryRootSpan (data w v')"
  "sentrySpans (data (finishRootSpan v ts tmo w) v') = sentrySpans (data w v')"
  "clock (finishRootSpan v ts tmo w) = clock w"
  by (simp_all add: finishRootSpan_def setTimeout_def clearTimeout_def setData_def Let_def
      split: option.splits)

lemma spanOf_finishRootSpan [simp]:
  "spanOf (finishRootSpan v ts tmo w) v' operation = spanOf w v' operation"
  by (simp add: spanOf_def)

lemma initSpans_obs [simp]:
  "calls (initSpans v w) = calls w"
  "sentryRootSpan (data (initSpans v w) v') = sentryRootSpan (data w v')"
  "sentryRootSpanTimer (data (initSpans v w) v') = sentryRootSpanTimer (data w v')"
  "pending (initSpans v w) = pending w"
  "nextHandle (initSpans v w) = nextHandle w"
  "clock (initSpans v w) = clock w"
  by (simp_all add: initSpans_def setData_def)

lemma spanOf_initSpans [simp]: "spanOf (initSpans v w) v' operation = spanOf w v' operation"
  by (simp add: spanOf_def initSpans_def setData_def split: option.splits)

lemma spansOk_finishRootSpan: "spansOk w \<Longrightarrow> spansOk (finishRootSpan v ts tmo w)"
  by (erule spansOk_same) simp_all

lemma spansOk_initSpans: "spansOk w \<Longrightarrow> spansOk (initSpans v w)"
  by (erule spansOk_same) simp_all

lemma spansOk_ensureRootSpan: "spansOk w \<Longrightarrow> spansOk (ensureRootSpan env this act w)"
proof -
  assume ok: "spansOk w"
  show ?thesis
  proof (cases "vm_root env this = this \<and> act \<noteq> None \<and> sentryRootSpan (data w this) = None")
    case False
    then have "ensureRootSpan env this act w = w"
      by (auto simp: ensureRootSpan_def split: option.splits)
    with ok show ?thesis by simp
  next
    case True
    then show ?thesis
      by (intro spansOk_start_root[OF ok, of this _ "\<lparr> span_name = ''Application Render'',
                           span_op = VUE_OP @ ''.render'',
                           span_origin = ''auto.ui.vue'' \<rparr>"])
         (auto simp: ensureRootSpan_def startInactiveSpan_def setData_def spanOf_def)
  qed
qed

lemma render_op: "operation \<noteq> ''render'' \<Longrightarrow> VUE_OP @ ''.'' @ operation \<noteq> VUE_OP @ ''.render''"
  by simp

lemma spansOk_beforeHook:
  assumes ok: "spansOk w" and op: "operation \<noteq> ''render''"
  shows "spansOk (beforeHook env operation this act w)"
proof (cases "startingContext env this act w")
  case None
  with ok show ?thesis by (simp add: beforeHook_def)
next
  case (Some ctx)
  define w1 where "w1 = (case spanOf w this operation of
                       Some oldSpan \<Rightarrow> spanEnd oldSpan None w
                     | None \<Rightarrow> w)"
  have ok1: "spansOk w1"
  proof (cases "spanOf w this operation")
    case None
    with ok show ?thesis by (simp add: w1_def)
  next
    case (Some old)
    have "spansOk (spanEnd old None w)"
      by (rule spansOk_end_op[OF ok Some, of _ None "clock w"]) (simp_all add: spanEnd_def spanOf_def)
    with Some show ?thesis by (simp add: w1_def)
  qed
  have eq: "beforeHook env operation this act w =
     setData this
       (\<lambda>d. d\<lparr>sentrySpans :=
                Some ((case sentrySpans d of None \<Rightarrow> Map.empty | Some m \<Rightarrow> m)
                        (operation \<mapsto> Started (length (started (calls w1)))))\<rparr>)
       (w1\<lparr>calls := calls w1 @ [StartInactiveSpan
                      \<lparr> span_name = ''Vue <'' @ formatComponentName env this @ ''>'',
                        span_op = VUE_OP @ ''.'' @ operation,
                        span_origin = ''auto.ui.vue'' \<rparr>]\<rparr>)"
    using Some by (simp add: beforeHook_def w1_def startInactiveSpan_def Let_def)
  show ?thesis
    unfolding eq
    by (rule spansOk_start_op[OF ok1, of _ _ this operation])
       (auto simp: setData_def spanOf_def op split: option.splits)
qed

lemma spansOk_afterHook:
  assumes ok: "spansOk w"
  shows "spansOk (afterHook options operation this w)"
proof (cases "spanOf w this operation")
  case None
  with ok show ?thesis by (simp add: afterHook_def)
next
  case (Some s)
  have "spansOk (spanEnd s None w)"
    by (rule spansOk_end_op[OF ok Some, of _ None "clock w"]) (simp_all add: spanEnd_def spanOf_def)
  with Some show ?thesis by (simp add: afterHook_def Let_def spansOk_finishRootSpan)
qed

lemma spansOk_lifecycleHook:
  assumes ok: "spansOk w" and op: "c_operation c \<noteq> ''render''"
  shows "spansOk (lifecycleHook env options c this act w)"
  unfolding lifecycleHook_def Let_def
  by (simp add: spansOk_ensureRootSpan spansOk_initSpans spansOk_beforeHook spansOk_afterHook ok op)

lemma spansOk_callback:
  assumes ok: "spansOk w"
  shows "spansOk (finishRootSpanCallback env vm ts w)"
proof (cases "sentryRootSpan (data w (vm_root env vm))")
  case None
  with ok show ?thesis by (simp add: finishRootSpanCallback_def)
next
  case (Some s)
  have "spansOk (setData (vm_root env vm) (\<lambda>d. d\<lparr>sentryRootSpan := None\<rparr>)
            (spanEnd s (Some ts) w))"
    by (rule spansOk_end_root[OF ok Some, of _ "Some ts" "clock w"])
       (simp_all add: spanEnd_def spanOf_def setData_def)
  with Some show ?thesis by (simp add: finishRootSpanCallback_def)
qed

lemma spansOk_fire: "spansOk w \<Longrightarrow> spansOk (fire env h w)"
proof -
  assume ok: "spansOk w"
  have p: "spansOk (w\<lparr>pending := filter (\<lambda>t. handle t \<noteq> h) (pending w)\<rparr>)"
    by (rule spansOk_same[OF ok]) (simp_all add: spanOf_def)
  show ?thesis
    by (cases "find (\<lambda>t. handle t = h) (pending w)") (simp_all add: fire_def ok spansOk_callback[OF p])
qed

lemma spansOk_clock: "spansOk w \<Longrightarrow> spansOk (w\<lparr>clock := t\<rparr>)"
  by (erule spansOk_same) (simp_all add: spanOf_def)

lemma spansOk_initialWorld: "spansOk initialWorld"
  by (simp add: spansOk_def initialWorld_def spanOf_def isRootSpan_def endCalls_def split: Span.splits)

lemma bindHooks_closures:
  "bindHooks dbg ops (warns, mixins) = Inr (warns', mixins') \<Longrightarrow>
   \<forall>(h, c) \<in> set mixins. HOOKS (c_operation c) = Hooks (c_internalHooks c) \<and> c_internalHook c = h \<and> h \<in> set (c_internalHooks c) \<Longrightarrow>
   \<forall>(h, c) \<in> set mixins'. HOOKS (c_operation c) = Hooks (c_internalHooks c) \<and> c_internalHook c = h \<and> h \<in> set (c_internalHooks c)"
proof (induction ops arbitrary: warns mixins)
  case Nil
  then show ?case by simp
next
  case (Cons operation ops)
  show ?case
  proof (cases "HOOKS operation")
    case (Hooks hs)
    with Cons.prems(1) have
      "bindHooks dbg ops (warns, mixins @ map (\<lambda>internalHook.
                        (internalHook,
                         \<lparr> c_operation = operation, c_internalHooks = hs,
                           c_internalHook = internalHook \<rparr>)) hs) = Inr (warns', mixins')" by simp
    then show ?thesis
      by (rule Cons.IH) (use Cons.prems(2) Hooks in auto)
  next
    case Inherited
    with Cons.prems show ?thesis by simp
  next
    case Undefined
    with Cons.prems(1) have
      "bindHooks dbg ops (if dbg then warns @ [''Unknown hook: '' @ operation] else warns, mixins) = Inr (warns', mixins')" by simp
    then show ?thesis
      by (rule Cons.IH) (rule Cons.prems(2))
  qed
qed

lemma mixin_closure:
  assumes "createTracingMixins build options = Inr (warns, mixins)" "mixinOf mixins hook = Some c"
  shows "HOOKS (c_operation c) = Hooks (c_internalHooks c) \<and> c_internalHook c = hook \<and>
         hook \<in> set (c_internalHooks c)"
proof -
  from assms(1) have "\<forall>(h, c) \<in> set mixins. HOOKS (c_operation c) = Hooks (c_internalHooks c) \<and> c_internalHook c = h \<and> h \<in> set (c_internalHooks c)"
    unfolding createTracingMixins_def by (rule bindHooks_closures) simp
  moreover from assms(2) have "(hook, c) \<in> set mixins"
    unfolding mixinOf_def by (auto dest: map_of_SomeD)
  ultimately show ?thesis by blast
qed

lemma HOOKS_render: "HOOKS ''render'' \<noteq> Hooks hs"
  by (simp add: HOOKS_def objectPrototypeNames_def)

lemma spansOk_step:
  assumes "createTracingMixins build options = Inr (warns, mixins)" "spansOk w"
  shows "spansOk (step env options mixins ev w)"
proof (cases ev)
  case (HookCall vm hook act)
  show ?thesis
  proof (cases "mixinOf mixins hook")
    case None
    with HookCall assms(2) show ?thesis by simp
  next
    case (Some c)
    from mixin_closure[OF assms(1) Some] HOOKS_render have "c_operation c \<noteq> ''render''" by metis
    with HookCall Some assms(2) show ?thesis by (simp add: spansOk_lifecycleHook)
  qed
next
  case (TimerFire h)
  with assms(2) show ?thesis by (simp add: spansOk_fire)
next
  case (Tick t)
  with assms(2) show ?thesis by (simp add: spansOk_clock)
qed

lemma spansOk_run:
  assumes "createTracingMixins build options = Inr (warns, mixins)" "spansOk w"
  shows "spansOk (run env options mixins evs w)"
  using assms(2) unfolding run_def
  by (induction evs arbitrary: w) (simp_all add: spansOk_step[OF assms(1)])

lemma createTracingMixins_example:
  "createTracingMixins exampleBuild exampleOptions = Inr ([], exampleMixins)"
  by code_simp

section \<open>Lemmas: hooks and timers\<close>

lemma lifecycleHook_untracked:
  "\<not> tracked env options this \<Longrightarrow> lifecycleHook env options c this act w = w"
  by (simp add: lifecycleHook_def tracked_def ensureRootSpan_def Let_def)

lemma lifecycleHook_tracked:
  "tracked env options this \<Longrightarrow>
   lifecycleHook env options c this act w =
     (if isBefore c
      then beforeHook env (c_operation c) this act (initSpans this (ensureRootSpan env this act w))
      else afterHook options (c_operation c) this (initSpans this (ensureRootSpan env this act w)))"
  by (auto simp: lifecycleHook_def tracked_def Let_def isBefore_def)

lemma afterHook_timeout:
  "timeout options' = timeout options \<Longrightarrow>
   afterHook options' operation this w = afterHook options operation this w"
  by (simp add: afterHook_def split: option.splits)

lemma ensureRootSpan_cases:
  "ensureRootSpan env this act w =
     (if vm_root env this = this \<and> act \<noteq> None \<and> sentryRootSpan (data w this) = None
      then setData this (\<lambda>d. d\<lparr>sentryRootSpan := Some (Started (length (started (calls w))))\<rparr>)
             (w\<lparr>calls := calls w @ [StartInactiveSpan
                    \<lparr> span_name = ''Application Render'', span_op = VUE_OP @ ''.render'',
                      span_origin = ''auto.ui.vue'' \<rparr>]\<rparr>)
      else w)"
  by (auto simp: ensureRootSpan_def startInactiveSpan_def split: option.splits)

lemma ensureRootSpan_obs [simp]:
  "pending (ensureRootSpan env this act w) = pending w"
  "nextHandle (ensureRootSpan env this act w) = nextHandle w"
  "clock (ensureRootSpan env this act w) = clock w"
  "sentryRootSpanTimer (data (ensureRootSpan env this act w) v) = sentryRootSpanTimer (data w v)"
  "sentrySpans (data (ensureRootSpan env this act w) v) = sentrySpans (data w v)"
  by (simp_all add: ensureRootSpan_cases setData_def)

lemma spanOf_ensureRootSpan [simp]:
  "spanOf (ensureRootSpan env this act w) v operation = spanOf w v operation"
  by (simp add: spanOf_def)

lemma beforeHook_cases:
  "beforeHook env operation this act w =
     (case startingContext env this act w of
        None \<Rightarrow> w
      | Some _ \<Rightarrow>
          setData this
            (\<lambda>d. d\<lparr>sentrySpans :=
                     Some ((case sentrySpans d of None \<Rightarrow> Map.empty | Some m \<Rightarrow> m)
                             (operation \<mapsto> Started (length (started (calls w)))))\<rparr>)
            (w\<lparr>calls := calls w @
                  (case spanOf w this operation of
                     Some oldSpan \<Rightarrow> [SpanEnd oldSpan None (clock w)]
                   | None \<Rightarrow> []) @
                  [StartInactiveSpan
                     \<lparr> span_name = ''Vue <'' @ formatComponentName env this @ ''>'',
                       span_op = VUE_OP @ ''.'' @ operation,
                       span_origin = ''auto.ui.vue'' \<rparr>]\<rparr>))"
  by (simp add: beforeHook_def startInactiveSpan_def spanEnd_def setData_def Let_def
      split: option.splits)

lemma beforeHook_obs [simp]:
  "pending (beforeHook env operation this act w) = pending w"
  "nextHandle (beforeHook env operation this act w) = nextHandle w"
  "clock (beforeHook env operation this act w) = clock w"
  "sentryRootSpanTimer (data (beforeHook env operation this act w) v) = sentryRootSpanTimer (data w v)"
  "sentryRootSpan (data (beforeHook env operation this act w) v) = sentryRootSpan (data w v)"
  by (simp_all add: beforeHook_cases setData_def split: option.splits)

lemma afterHook_cases:
  "afterHook options operation this w =
     (case spanOf w this operation of
        None \<Rightarrow> w
      | Some s \<Rightarrow>
          setData this (\<lambda>d. d\<lparr>sentryRootSpanTimer := Some (nextHandle w)\<rparr>)
            (w\<lparr>calls := calls w @ [SpanEnd s None (clock w)],
               pending := cancelled w this @
                 [\<lparr> handle = nextHandle w, t_vm = this,
                    t_timestamp = of_nat (clock w) / 1000,
                    due = clock w + timeout options \<rparr>],
               nextHandle := Suc (nextHandle w)\<rparr>))"
  by (simp add: afterHook_def finishRootSpan_def setTimeout_def clearTimeout_def spanEnd_def
      setData_def timestampInSeconds_def cancelled_def Let_def split: option.splits)

lemma afterHook_obs [simp]:
  "clock (afterHook options operation this w) = clock w"
  "sentryRootSpan (data (afterHook options operation this w) v) = sentryRootSpan (data w v)"
  "sentrySpans (data (afterHook options operation this w) v) = sentrySpans (data w v)"
  "started (calls (afterHook options operation this w)) = started (calls w)"
  by (simp_all add: afterHook_cases setData_def split: option.splits)

lemma spanOf_afterHook [simp]:
  "spanOf (afterHook options operation this w) v operation' = spanOf w v operation'"
  by (simp add: spanOf_def)

lemma spanOf_beforeHook:
  "spanOf (beforeHook env operation this act w) v operation' =
     (if startingContext env this act w \<noteq> None \<and> v = this \<and> operation' = operation
      then Some (Started (length (started (calls w))))
      else spanOf w v operation')"
  by (auto simp: beforeHook_cases spanOf_def setData_def split: option.splits)

lemma HOOKS_not_render: "HOOKS (c_operation c) = Hooks hs \<Longrightarrow> c_operation c \<noteq> ''render''"
  using HOOKS_render by metis

lemma rootSpansStarted_hooks:
  assumes "c_operation c \<noteq> ''render''"
  shows "rootSpansStarted (lifecycleHook env options c this act w) =
         rootSpansStarted (ensureRootSpan env this act w)"
proof (cases "tracked env options this")
  case False
  then show ?thesis
    by (simp add: lifecycleHook_untracked tracked_def ensureRootSpan_cases)
next
  case True
  then show ?thesis using assms
    by (simp add: lifecycleHook_tracked rootSpansStarted_def beforeHook_cases setData_def
        split: option.splits)
qed

lemma sentryRootSpan_hooks:
  "sentryRootSpan (data (lifecycleHook env options c this act w) v) =
   sentryRootSpan (data (ensureRootSpan env this act w) v)"
proof (cases "tracked env options this")
  case False
  then show ?thesis
    by (simp add: lifecycleHook_untracked tracked_def ensureRootSpan_cases)
next
  case True
  then show ?thesis by (simp add: lifecycleHook_tracked)
qed

lemma afterHook_Some:
  assumes "spanOf w this operation = Some s"
  shows "calls (afterHook options operation this w) = calls w @ [SpanEnd s None (clock w)]"
    "pending (afterHook options operation this w) =
       cancelled w this @
         [\<lparr> handle = nextHandle w, t_vm = this, t_timestamp = of_nat (clock w) / 1000,
            due = clock w + timeout options \<rparr>]"
    "nextHandle (afterHook options operation this w) = Suc (nextHandle w)"
    "sentryRootSpanTimer (data (afterHook options operation this w) v) =
       (if v = this then Some (nextHandle w) else sentryRootSpanTimer (data w v))"
  using assms by (simp_all add: afterHook_cases setData_def)

lemma afterHook_None:
  "spanOf w this operation = None \<Longrightarrow> afterHook options operation this w = w"
  by (simp add: afterHook_cases)

lemma cancelled_init [simp]:
  "cancelled (initSpans this (ensureRootSpan env this act w)) v = cancelled w v"
  by (simp add: cancelled_def split: option.splits)

lemma lifecycleHook_after:
  assumes "tracked env options this" "\<not> isBefore c"
    and "spanOf w this (c_operation c) = Some s"
  shows "calls (lifecycleHook env options c this act w) =
           calls (ensureRootSpan env this act w) @ [SpanEnd s None (clock w)]"
    "pending (lifecycleHook env options c this act w) =
           cancelled w this @
             [\<lparr> handle = nextHandle w, t_vm = this,
                t_timestamp = of_nat (clock w) / 1000,
                due = clock w + timeout options \<rparr>]"
    "sentryRootSpanTimer (data (lifecycleHook env options c this act w) v) =
       (if v = this then Some (nextHandle w) else sentryRootSpanTimer (data w v))"
    "nextHandle (lifecycleHook env options c this act w) = Suc (nextHandle w)"
    "spanOf (lifecycleHook env options c this act w) v operation = spanOf w v operation"
    "sentryRootSpan (data (lifecycleHook env options c this act w) v) =
       sentryRootSpan (data (ensureRootSpan env this act w) v)"
    "clock (lifecycleHook env options c this act w) = clock w"
proof -
  let ?w2 = "initSpans this (ensureRootSpan env this act w)"
  have s: "spanOf ?w2 this (c_operation c) = Some s" using assms(3) by simp
  have eq: "lifecycleHook env options c this act w = afterHook options (c_operation c) this ?w2"
    using assms by (simp add: lifecycleHook_tracked)
  show "calls (lifecycleHook env options c this act w) =
           calls (ensureRootSpan env this act w) @ [SpanEnd s None (clock w)]"
    "pending (lifecycleHook env options c this act w) =
           cancelled w this @
             [\<lparr> handle = nextHandle w, t_vm = this,
                t_timestamp = of_nat (clock w) / 1000,
                due = clock w + timeout options \<rparr>]"
    "sentryRootSpanTimer (data (lifecycleHook env options c this act w) v) =
       (if v = this then Some (nextHandle w) else sentryRootSpanTimer (data w v))"
    "nextHandle (lifecycleHook env options c this act w) = Suc (nextHandle w)"
    "spanOf (lifecycleHook env options c this act w) v operation = spanOf w v operation"
    "sentryRootSpan (data (lifecycleHook env options c this act w) v) =
       sentryRootSpan (data (ensureRootSpan env this act w) v)"
    "clock (lifecycleHook env options c this act w) = clock w"
    unfolding eq using afterHook_Some[OF s, of options] by simp_all
qed

lemma startingContext_init [simp]:
  "startingContext env this act (initSpans v w) = startingContext env this act w"
  by (simp add: startingContext_def)

lemma startingContext_ensured:
  "sentryRootSpan (data w (vm_root env this)) \<noteq> None \<or> act \<noteq> None \<Longrightarrow>
   startingContext env this act (ensureRootSpan env this act w) \<noteq> None"
  by (auto simp: startingContext_def ensureRootSpan_cases setData_def split: option.splits)

lemma endCalls_ensureRootSpan [simp]:
  "endCalls (ensureRootSpan env this act w) s = endCalls w s"
  by (simp add: ensureRootSpan_cases endCalls_def setData_def)

lemma endCalls_initSpans [simp]: "endCalls (initSpans v w) s = endCalls w s"
  by (simp add: endCalls_def)

lemma spansOk_fresh: "spansOk w \<Longrightarrow> endCalls w (Started (length (started (calls w)))) = []"
  unfolding spansOk_def by (intro endCalls_fresh) blast

lemma spansOk_stored:
  "spansOk w \<Longrightarrow> spanOf w v operation = Some s \<Longrightarrow>
   \<exists>i. s = Started i \<and> i < length (started (calls w))"
  unfolding spansOk_def by blast

lemma beforeHook_Some:
  assumes "startingContext env this act w \<noteq> None"
  shows "calls (beforeHook env operation this act w) =
           calls w @
             (case spanOf w this operation of
                Some oldSpan \<Rightarrow> [SpanEnd oldSpan None (clock w)]
              | None \<Rightarrow> []) @
             [StartInactiveSpan
                \<lparr> span_name = ''Vue <'' @ formatComponentName env this @ ''>'',
                  span_op = VUE_OP @ ''.'' @ operation,
                  span_origin = ''auto.ui.vue'' \<rparr>]"
    "spanOf (beforeHook env operation this act w) this operation =
       Some (Started (length (started (calls w))))"
  using assms by (auto simp: beforeHook_cases spanOf_def setData_def split: option.splits)

lemma timersOk_filter:
  assumes "timersOk w" "pending w' = filter P (pending w)" "nextHandle w' = nextHandle w"
    "\<And>v. sentryRootSpanTimer (data w' v) = sentryRootSpanTimer (data w v)"
  shows "timersOk w'"
  using assms by (auto simp: timersOk_def distinct_map_filter)

lemma timersOk_same:
  assumes "timersOk w" "pending w' = pending w" "nextHandle w' = nextHandle w"
    "\<And>v. sentryRootSpanTimer (data w' v) = sentryRootSpanTimer (data w v)"
  shows "timersOk w'"
  using timersOk_filter[OF assms(1), of w' "\<lambda>_. True"] assms by simp

lemma timersOf_cancelled:
  assumes "timersOk w" shows "filter (\<lambda>t. t_vm t = vm) (cancelled w vm) = []"
proof (cases "sentryRootSpanTimer (data w vm)")
  case None
  with assms have "\<forall>t \<in> set (pending w). t_vm t \<noteq> vm" by (auto simp: timersOk_def)
  with None show ?thesis by (simp add: cancelled_def filter_empty_conv)
next
  case (Some h)
  with assms have "\<forall>t \<in> set (pending w). t_vm t = vm \<longrightarrow> handle t = h"
    by (auto simp: timersOk_def)
  with Some show ?thesis by (auto simp: cancelled_def filter_empty_conv)
qed

lemma timersOk_afterHook:
  assumes ok: "timersOk w" shows "timersOk (afterHook options operation this w)"
proof (cases "spanOf w this operation")
  case None
  with ok show ?thesis by (simp add: afterHook_None)
next
  case (Some s)
  note A = afterHook_Some[OF Some, of options]
  have sub: "set (cancelled w this) \<subseteq> set (pending w)"
    by (auto simp: cancelled_def split: option.splits)
  have d: "distinct (map handle (cancelled w this))"
    using ok by (auto simp: cancelled_def timersOk_def distinct_map_filter split: option.splits)
  have nv: "\<forall>t \<in> set (cancelled w this). t_vm t \<noteq> this"
    using timersOf_cancelled[OF ok, of this] by (simp add: filter_empty_conv)
  have lt: "\<forall>t \<in> set (cancelled w this). handle t < nextHandle w \<and>
              sentryRootSpanTimer (data w (t_vm t)) = Some (handle t)"
    using ok sub by (auto simp: timersOk_def)
  show ?thesis
    unfolding timersOk_def A using d nv lt by auto
qed

lemma timersOk_beforeHook: "timersOk w \<Longrightarrow> timersOk (beforeHook env operation this act w)"
  by (erule timersOk_same) simp_all

lemma timersOk_init: "timersOk w \<Longrightarrow> timersOk (initSpans this (ensureRootSpan env this act w))"
  by (erule timersOk_same) simp_all

lemma timersOk_lifecycleHook:
  assumes "timersOk w" shows "timersOk (lifecycleHook env options c this act w)"
proof (cases "tracked env options this")
  case False
  with assms show ?thesis by (simp add: lifecycleHook_untracked)
next
  case True
  then show ?thesis
    by (simp add: lifecycleHook_tracked timersOk_beforeHook timersOk_afterHook
        timersOk_init[OF assms])
qed

lemma callback_obs [simp]:
  "pending (finishRootSpanCallback env vm ts w) = pending w"
  "nextHandle (finishRootSpanCallback env vm ts w) = nextHandle w"
  "clock (finishRootSpanCallback env vm ts w) = clock w"
  "sentryRootSpanTimer (data (finishRootSpanCallback env vm ts w) v) =
     sentryRootSpanTimer (data w v)"
  "sentrySpans (data (finishRootSpanCallback env vm ts w) v) = sentrySpans (data w v)"
  by (simp_all add: finishRootSpanCallback_def setData_def spanEnd_def split: option.splits)

lemma fire_obs [simp]:
  "pending (fire env h w) = filter (\<lambda>t. handle t \<noteq> h) (pending w)"
  "nextHandle (fire env h w) = nextHandle w"
  "clock (fire env h w) = clock w"
  "sentryRootSpanTimer (data (fire env h w) v) = sentryRootSpanTimer (data w v)"
  "sentrySpans (data (fire env h w) v) = sentrySpans (data w v)"
proof -
  have "find (\<lambda>t. handle t = h) (pending w) = None \<Longrightarrow>
          filter (\<lambda>t. handle t \<noteq> h) (pending w) = pending w"
    by (simp add: find_None_iff filter_id_conv)
  then show "pending (fire env h w) = filter (\<lambda>t. handle t \<noteq> h) (pending w)"
    by (simp add: fire_def split: option.splits)
qed (simp_all add: fire_def split: option.splits)

lemma timersOk_fire: "timersOk w \<Longrightarrow> timersOk (fire env h w)"
  by (erule timersOk_filter[where P = "\<lambda>t. handle t \<noteq> h"]) simp_all

lemma timersOk_step: "timersOk w \<Longrightarrow> timersOk (step env options mixins ev w)"
proof (cases ev)
  case (HookCall vm hook act)
  assume "timersOk w"
  with HookCall show ?thesis
    by (cases "mixinOf mixins hook") (simp_all add: timersOk_lifecycleHook)
next
  case (TimerFire h)
  assume "timersOk w"
  with TimerFire show ?thesis by (simp add: timersOk_fire)
next
  case (Tick t)
  assume "timersOk w"
  then have "timersOk (w\<lparr>clock := max (clock w) t\<rparr>)" by (rule timersOk_same) simp_all
  with Tick show ?thesis by simp
qed

lemma timersOk_run: "timersOk w \<Longrightarrow> timersOk (run env options mixins evs w)"
  unfolding run_def by (induction evs arbitrary: w) (simp_all add: timersOk_step)

lemma timersOk_initialWorld: "timersOk initialWorld"
  by (simp add: timersOk_def initialWorld_def)

lemma timersOk_atmost:
  assumes "timersOk w" shows "length (timersOf w vm) \<le> 1"
proof -
  have d: "distinct (map handle (timersOf w vm))"
    using assms by (simp add: timersOk_def timersOf_def distinct_map_filter)
  have "\<forall>t \<in> set (timersOf w vm). Some (handle t) = sentryRootSpanTimer (data w vm)"
    using assms by (auto simp: timersOk_def timersOf_def)
  then have "set (map handle (timersOf w vm)) \<subseteq> {h. Some h = sentryRootSpanTimer (data w vm)}"
    by auto
  moreover have "card {h. Some h = sentryRootSpanTimer (data w vm)} \<le> 1"
    by (cases "sentryRootSpanTimer (data w vm)") (simp_all add: card_le_Suc0_iff_eq)
  moreover have "finite {h. Some h = sentryRootSpanTimer (data w vm)}"
    by (cases "sentryRootSpanTimer (data w vm)") simp_all
  ultimately have "card (set (map handle (timersOf w vm))) \<le> 1"
    using card_mono le_trans by blast
  with d show ?thesis using distinct_card[OF d] by simp
qed

lemma mixinOf_example:
  "mixinOf exampleMixins ''beforeMount'' = Some beforeMountClosure"
  "mixinOf exampleMixins ''mounted'' = Some mountedClosure"
  by code_simp+

lemma closures_example:
  "isBefore beforeMountClosure" "\<not> isBefore mountedClosure"
  "c_operation beforeMountClosure = ''mount''" "c_operation mountedClosure = ''mount''"
  by code_simp+

lemma timeout_example: "timeout exampleOptions = 100"
  by (simp add: exampleOptions_def)

lemma tracked_example:
  "tracked exampleTree exampleOptions vm"
  by (simp add: tracked_def exampleOptions_def shouldTrack_def)

lemma mountStarted_facts:
  "spanOf mountStarted 2 ''mount'' = Some (Started 2)"
  "endCalls mountStarted (Started 2) = []"
  "cancelled mountStarted 2 = []"
  "nextHandle mountStarted = 1"
  "clock mountStarted = 5"
  "calls (ensureRootSpan exampleTree 2 None mountStarted) = calls mountStarted"
  "length (started (calls mountStarted)) = 3"
  "sentryRootSpan (data mountStarted (vm_root exampleTree 2)) = Some (Started 0)"
  by code_simp+

lemma bothMounted_facts:
  "spanOf bothMounted 2 ''mount'' = Some (Started 2)"
  "cancelled bothMounted 2 = [\<lparr> handle = 2, t_vm = 0, t_timestamp = 7 / 1000, due = 107 \<rparr>]"
  "nextHandle bothMounted = 3"
  "clock bothMounted = 7"
  by code_simp+

lemma filter_example:
  "started (calls (ensureRootSpan exampleTree 0 (Some (Foreign 0)) initialWorld)) =
     [\<lparr> span_name = ''Application Render'', span_op = ''ui.vue.render'',
        span_origin = ''auto.ui.vue'' \<rparr>]"
  "started (calls (ensureRootSpan exampleTree 2 (Some (Foreign 0)) initialWorld)) = []"
  "formatComponentName exampleTree 0 = ''Root''"
  "formatComponentName exampleTree 2 = ''Foo''"
  "formatComponentName exampleTree 3 = ''Bar''"
  "vm_root exampleTree vm = 0"
  "trackComponents fooOptions = Names [''Foo'']"
  by code_simp+

lemma slotsOk_same:
  assumes "slotsOk env w" "calls w' = calls w"
    "\<And>v operation. spanOf w' v operation = spanOf w v operation"
  shows "slotsOk env w'"
proof -
  have e: "\<And>s. endCalls w' s = endCalls w s" using assms(2) by (rule endCalls_calls)
  from assms(1) show ?thesis unfolding slotsOk_def e assms(2) assms(3) .
qed

lemma slotsOk_end:
  assumes ok: "slotsOk env w" and c: "calls w' = calls w @ [SpanEnd x ts clk]"
    and m: "\<And>v operation. spanOf w' v operation = spanOf w v operation"
  shows "slotsOk env w'"
proof -
  note E = endCalls_end[OF c]
  have s: "started (calls w') = started (calls w)" by (simp add: c)
  have 3: "\<forall>i. i < length (started (calls w')) \<and>
          span_op (started (calls w') ! i) \<noteq> VUE_OP @ ''.render'' \<and>
          endCalls w' (Started i) = [] \<longrightarrow>
          (\<exists>v operation. spanOf w' v operation = Some (Started i))"
    using ok unfolding slotsOk_def s E m by (auto split: if_splits)
  from ok 3 show ?thesis unfolding slotsOk_def s m by blast
qed

lemma slotsOk_start_root:
  assumes ok: "slotsOk env w" and c: "calls w' = calls w @ [StartInactiveSpan ctx]"
    and o: "span_op ctx = VUE_OP @ ''.render''"
    and m: "\<And>v operation. spanOf w' v operation = spanOf w v operation"
  shows "slotsOk env w'"
proof -
  note E = endCalls_start[OF c]
  have s: "started (calls w') = started (calls w) @ [ctx]" by (simp add: c)
  have 1: "\<forall>v operation s. spanOf w' v operation = Some s \<longrightarrow>
        (\<exists>i. s = Started i \<and> i < length (started (calls w')) \<and>
             started (calls w') ! i =
               \<lparr> span_name = ''Vue <'' @ formatComponentName env v @ ''>'',
                 span_op = VUE_OP @ ''.'' @ operation,
                 span_origin = ''auto.ui.vue'' \<rparr>)"
  proof (intro allI impI)
    fix v operation sp assume "spanOf w' v operation = Some sp"
    then have "spanOf w v operation = Some sp" by (simp add: m)
    with ok obtain i where "sp = Started i" "i < length (started (calls w))"
      "started (calls w) ! i =
               \<lparr> span_name = ''Vue <'' @ formatComponentName env v @ ''>'',
                 span_op = VUE_OP @ ''.'' @ operation,
                 span_origin = ''auto.ui.vue'' \<rparr>"
      unfolding slotsOk_def by blast
    then show "\<exists>i. sp = Started i \<and> i < length (started (calls w')) \<and>
             started (calls w') ! i =
               \<lparr> span_name = ''Vue <'' @ formatComponentName env v @ ''>'',
                 span_op = VUE_OP @ ''.'' @ operation,
                 span_origin = ''auto.ui.vue'' \<rparr>"
      by (auto simp: s nth_append)
  qed
  have 3: "\<forall>i. i < length (started (calls w')) \<and>
          span_op (started (calls w') ! i) \<noteq> VUE_OP @ ''.render'' \<and>
          endCalls w' (Started i) = [] \<longrightarrow>
          (\<exists>v operation. spanOf w' v operation = Some (Started i))"
  proof (intro allI impI, elim conjE)
    fix i assume i: "i < length (started (calls w'))"
      "span_op (started (calls w') ! i) \<noteq> VUE_OP @ ''.render''"
      "endCalls w' (Started i) = []"
    from i(1,2) o have "i < length (started (calls w))"
      by (cases "i = length (started (calls w))") (auto simp: s)
    with i ok show "\<exists>v operation. spanOf w' v operation = Some (Started i)"
      unfolding slotsOk_def by (simp add: s E m nth_append)
  qed
  from ok 1 3 show ?thesis unfolding slotsOk_def m by blast
qed

lemma slotsOk_start_op:
  assumes ok: "slotsOk env w"
    and c: "calls w' = calls w @ [StartInactiveSpan
              \<lparr> span_name = ''Vue <'' @ formatComponentName env v0 @ ''>'',
                span_op = VUE_OP @ ''.'' @ op0,
                span_origin = ''auto.ui.vue'' \<rparr>]"
    and old: "\<And>x. spanOf w v0 op0 = Some x \<Longrightarrow> endCalls w x \<noteq> []"
    and m: "\<And>v operation. spanOf w' v operation =
               (if v = v0 \<and> operation = op0 then Some (Started (length (started (calls w))))
                else spanOf w v operation)"
  shows "slotsOk env w'"
proof -
  note E = endCalls_start[OF c]
  let ?n = "length (started (calls w))"
  let ?ctx = "\<lparr> span_name = ''Vue <'' @ formatComponentName env v0 @ ''>'',
                span_op = VUE_OP @ ''.'' @ op0,
                span_origin = ''auto.ui.vue'' \<rparr>"
  have s: "started (calls w') = started (calls w) @ [?ctx]" by (simp add: c)
  have lt: "\<And>v operation i. spanOf w v operation = Some (Started i) \<Longrightarrow> i < ?n"
    using ok unfolding slotsOk_def by blast
  have 1: "\<forall>v operation sp. spanOf w' v operation = Some sp \<longrightarrow>
        (\<exists>i. sp = Started i \<and> i < length (started (calls w')) \<and>
             started (calls w') ! i =
               \<lparr> span_name = ''Vue <'' @ formatComponentName env v @ ''>'',
                 span_op = VUE_OP @ ''.'' @ operation,
                 span_origin = ''auto.ui.vue'' \<rparr>)"
  proof (intro allI impI)
    fix v operation sp assume a: "spanOf w' v operation = Some sp"
    show "\<exists>i. sp = Started i \<and> i < length (started (calls w')) \<and>
             started (calls w') ! i =
               \<lparr> span_name = ''Vue <'' @ formatComponentName env v @ ''>'',
                 span_op = VUE_OP @ ''.'' @ operation,
                 span_origin = ''auto.ui.vue'' \<rparr>"
    proof (cases "v = v0 \<and> operation = op0")
      case True
      with a have "sp = Started ?n" by (simp add: m)
      with True show ?thesis by (simp add: s)
    next
      case False
      with a have "spanOf w v operation = Some sp" by (auto simp: m split: if_splits)
      with ok obtain i where "sp = Started i" "i < ?n"
        "started (calls w) ! i =
               \<lparr> span_name = ''Vue <'' @ formatComponentName env v @ ''>'',
                 span_op = VUE_OP @ ''.'' @ operation,
                 span_origin = ''auto.ui.vue'' \<rparr>"
        unfolding slotsOk_def by blast
      then show ?thesis by (auto simp: s nth_append)
    qed
  qed
  have 2: "\<forall>v operation v' operation' sp.
        spanOf w' v operation = Some sp \<and> spanOf w' v' operation' = Some sp \<longrightarrow>
        v = v' \<and> operation = operation'"
  proof (intro allI impI, elim conjE)
    fix v operation v' operation' sp
    assume a: "spanOf w' v operation = Some sp" and b: "spanOf w' v' operation' = Some sp"
    show "v = v' \<and> operation = operation'"
    proof (cases "v = v0 \<and> operation = op0")
      case True
      with a have sp: "sp = Started ?n" by (simp add: m)
      show ?thesis
      proof (cases "v' = v0 \<and> operation' = op0")
        case True
        with \<open>v = v0 \<and> operation = op0\<close> show ?thesis by simp
      next
        case False
        with b sp have "spanOf w v' operation' = Some (Started ?n)"
          by (auto simp: m split: if_splits)
        from lt[OF this] show ?thesis by simp
      qed
    next
      case False
      with a have a': "spanOf w v operation = Some sp" by (auto simp: m split: if_splits)
      show ?thesis
      proof (cases "v' = v0 \<and> operation' = op0")
        case True
        with b have "sp = Started ?n" by (simp add: m)
        with a' lt show ?thesis by blast
      next
        case False
        with b have "spanOf w v' operation' = Some sp" by (auto simp: m split: if_splits)
        with a' ok show ?thesis unfolding slotsOk_def by blast
      qed
    qed
  qed
  have 3: "\<forall>i. i < length (started (calls w')) \<and>
          span_op (started (calls w') ! i) \<noteq> VUE_OP @ ''.render'' \<and>
          endCalls w' (Started i) = [] \<longrightarrow>
          (\<exists>v operation. spanOf w' v operation = Some (Started i))"
  proof (intro allI impI, elim conjE)
    fix i assume i: "i < length (started (calls w'))"
      "span_op (started (calls w') ! i) \<noteq> VUE_OP @ ''.render''"
      "endCalls w' (Started i) = []"
    show "\<exists>v operation. spanOf w' v operation = Some (Started i)"
    proof (cases "i = ?n")
      case True
      then have "spanOf w' v0 op0 = Some (Started i)" by (simp add: m)
      then show ?thesis by blast
    next
      case False
      with i have "i < ?n" "span_op (started (calls w) ! i) \<noteq> VUE_OP @ ''.render''"
        "endCalls w (Started i) = []"
        by (simp_all add: s E nth_append)
      with ok obtain v operation where st: "spanOf w v operation = Some (Started i)"
        unfolding slotsOk_def by blast
      with old \<open>endCalls w (Started i) = []\<close> have "\<not> (v = v0 \<and> operation = op0)" by auto
      with st have "spanOf w' v operation = Some (Started i)" by (auto simp: m)
      then show ?thesis by blast
    qed
  qed
  from 1 2 3 show ?thesis unfolding slotsOk_def by blast
qed

lemma slotsOk_ensureRootSpan: "slotsOk env w \<Longrightarrow> slotsOk env (ensureRootSpan env this act w)"
proof -
  assume ok: "slotsOk env w"
  show ?thesis
  proof (cases "vm_root env this = this \<and> act \<noteq> None \<and> sentryRootSpan (data w this) = None")
    case False
    then have "ensureRootSpan env this act w = w"
      by (auto simp: ensureRootSpan_def split: option.splits)
    with ok show ?thesis by simp
  next
    case True
    then show ?thesis
      by (intro slotsOk_start_root[OF ok, of _ "\<lparr> span_name = ''Application Render'',
            span_op = VUE_OP @ ''.render'', span_origin = ''auto.ui.vue'' \<rparr>"])
         (auto simp: ensureRootSpan_def startInactiveSpan_def setData_def spanOf_def)
  qed
qed

lemma slotsOk_initSpans: "slotsOk env w \<Longrightarrow> slotsOk env (initSpans v w)"
  by (erule slotsOk_same) simp_all

lemma slotsOk_beforeHook:
  assumes ok: "slotsOk env w"
  shows "slotsOk env (beforeHook env operation this act w)"
proof (cases "startingContext env this act w")
  case None
  with ok show ?thesis by (simp add: beforeHook_def)
next
  case (Some ctx)
  define w1 where "w1 = (case spanOf w this operation of
                       Some oldSpan \<Rightarrow> spanEnd oldSpan None w
                     | None \<Rightarrow> w)"
  have sp1: "\<And>v op. spanOf w1 v op = spanOf w v op"
    by (simp add: w1_def spanOf_def spanEnd_def split: option.splits)
  have ok1: "slotsOk env w1"
  proof (cases "spanOf w this operation")
    case None
    with ok show ?thesis by (simp add: w1_def)
  next
    case (Some old)
    have "slotsOk env (spanEnd old None w)"
      by (rule slotsOk_end[OF ok, of _ old None "clock w"]) (simp_all add: spanEnd_def spanOf_def)
    with Some show ?thesis by (simp add: w1_def)
  qed
  have old: "\<And>x. spanOf w1 this operation = Some x \<Longrightarrow> endCalls w1 x \<noteq> []"
    by (simp add: sp1) (simp add: w1_def spanEnd_def endCalls_def)
  have eq: "beforeHook env operation this act w =
     setData this
       (\<lambda>d. d\<lparr>sentrySpans :=
                Some ((case sentrySpans d of None \<Rightarrow> Map.empty | Some m \<Rightarrow> m)
                        (operation \<mapsto> Started (length (started (calls w1)))))\<rparr>)
       (w1\<lparr>calls := calls w1 @ [StartInactiveSpan
                      \<lparr> span_name = ''Vue <'' @ formatComponentName env this @ ''>'',
                        span_op = VUE_OP @ ''.'' @ operation,
                        span_origin = ''auto.ui.vue'' \<rparr>]\<rparr>)"
    using Some by (simp add: beforeHook_def w1_def startInactiveSpan_def Let_def)
  show ?thesis
    unfolding eq
    by (rule slotsOk_start_op[OF ok1 _ old, of _ this operation])
       (auto simp: setData_def spanOf_def split: option.splits)
qed

lemma slotsOk_afterHook:
  assumes ok: "slotsOk env w"
  shows "slotsOk env (afterHook options operation this w)"
proof (cases "spanOf w this operation")
  case None
  with ok show ?thesis by (simp add: afterHook_None)
next
  case (Some s)
  show ?thesis
    by (rule slotsOk_end[OF ok, of _ s None "clock w"])
       (simp_all add: afterHook_Some(1)[OF Some])
qed

lemma slotsOk_lifecycleHook:
  "slotsOk env w \<Longrightarrow> slotsOk env (lifecycleHook env options c this act w)"
  unfolding lifecycleHook_def Let_def
  by (simp add: slotsOk_ensureRootSpan slotsOk_initSpans slotsOk_beforeHook slotsOk_afterHook)

lemma slotsOk_callback: "slotsOk env w \<Longrightarrow> slotsOk env (finishRootSpanCallback env vm ts w)"
proof -
  assume ok: "slotsOk env w"
  show ?thesis
  proof (cases "sentryRootSpan (data w (vm_root env vm))")
    case None
    with ok show ?thesis by (simp add: finishRootSpanCallback_def)
  next
    case (Some s)
    have "slotsOk env (setData (vm_root env vm) (\<lambda>d. d\<lparr>sentryRootSpan := None\<rparr>)
            (spanEnd s (Some ts) w))"
      by (rule slotsOk_end[OF ok, of _ s "Some ts" "clock w"])
         (simp_all add: spanEnd_def spanOf_def setData_def)
    with Some show ?thesis by (simp add: finishRootSpanCallback_def)
  qed
qed

lemma slotsOk_fire: "slotsOk env w \<Longrightarrow> slotsOk env (fire env h w)"
proof -
  assume ok: "slotsOk env w"
  have p: "slotsOk env (w\<lparr>pending := filter (\<lambda>t. handle t \<noteq> h) (pending w)\<rparr>)"
    by (rule slotsOk_same[OF ok]) (simp_all add: spanOf_def)
  show ?thesis
    by (cases "find (\<lambda>t. handle t = h) (pending w)")
       (simp_all add: fire_def ok slotsOk_callback[OF p])
qed

lemma slotsOk_step: "slotsOk env w \<Longrightarrow> slotsOk env (step env options mixins ev w)"
proof (cases ev)
  case (HookCall vm hook act)
  assume "slotsOk env w"
  with HookCall show ?thesis
    by (cases "mixinOf mixins hook") (simp_all add: slotsOk_lifecycleHook)
next
  case (TimerFire h)
  assume "slotsOk env w"
  with TimerFire show ?thesis by (simp add: slotsOk_fire)
next
  case (Tick t)
  assume "slotsOk env w"
  then have "slotsOk env (w\<lparr>clock := max (clock w) t\<rparr>)"
    by (rule slotsOk_same) (simp_all add: spanOf_def)
  with Tick show ?thesis by simp
qed

lemma slotsOk_run: "slotsOk env w \<Longrightarrow> slotsOk env (run env options mixins evs w)"
  unfolding run_def by (induction evs arbitrary: w) (simp_all add: slotsOk_step)

lemma slotsOk_initialWorld: "slotsOk env initialWorld"
  by (simp add: slotsOk_def initialWorld_def spanOf_def)

section \<open>Lemmas: the quiet period\<close>




lemma isRootSpan_clock [simp]: "isRootSpan (w\<lparr>clock := t\<rparr>) s = isRootSpan w s"
  by (rule isRootSpan_calls) simp

lemma endCalls_clock [simp]: "endCalls (w\<lparr>clock := t\<rparr>) s = endCalls w s"
  by (rule endCalls_calls) simp

lemma spanOf_clock [simp]: "spanOf (w\<lparr>clock := t\<rparr>) v operation = spanOf w v operation"
  by (simp add: spanOf_def)

lemma cancelled_clock [simp]: "cancelled (w\<lparr>clock := t\<rparr>) v = cancelled w v"
  by (simp add: cancelled_def split: option.splits)

lemma sentrySpans_fires:
  "sentrySpans (data (foldl (\<lambda>w x. fire env (handle x) (w\<lparr>clock := due x\<rparr>)) w xs) v) =
   sentrySpans (data w v)"
  by (induction xs arbitrary: w) simp_all

lemma spanOf_advance [simp]: "spanOf (advance env t w) v operation = spanOf w v operation"
  by (simp add: advance_def spanOf_def sentrySpans_fires)















section \<open>Properties\<close>

subsection \<open>The root span\<close>

text \<open>
  C1. Whatever hooks the framework calls and whichever timers fire, in any order, a root
  span (a span started with the operation tag \<open>ui.vue.render\<close>) is ended at most once:
  the callback of a timer ends the root span only if the root instance still stores it,
  and clears it, so a timer that fires later finds nothing to end.
\<close>

theorem root_span_ended_at_most_once:
  assumes "createTracingMixins build options = Inr (warns, mixins)"
    and "isRootSpan (run env options mixins evs initialWorld) s"
  shows "length (endCalls (run env options mixins evs initialWorld) s) \<le> 1"
proof -
  have "spansOk (run env options mixins evs initialWorld)"
    by (rule spansOk_run[OF assms(1) spansOk_initialWorld])
  with assms(2) show ?thesis unfolding spansOk_def by blast
qed

text \<open>
  The root and a child each complete a mount; the child's timer ends the root span, the
  root's timer fires afterwards and ends nothing.
\<close>

theorem root_span_ended_at_most_once_witness:
  "isRootSpan (run exampleTree exampleOptions exampleMixins
       (exampleEvents @ [Tick 105, TimerFire 1, Tick 107, TimerFire 2]) initialWorld) (Started 0) \<and>
   length (endCalls (run exampleTree exampleOptions exampleMixins
       (exampleEvents @ [Tick 105, TimerFire 1, Tick 107, TimerFire 2]) initialWorld) (Started 0)) \<le> 1"
proof -
  have r: "isRootSpan (run exampleTree exampleOptions exampleMixins
       (exampleEvents @ [Tick 105, TimerFire 1, Tick 107, TimerFire 2]) initialWorld) (Started 0)"
    by code_simp
  from root_span_ended_at_most_once[OF createTracingMixins_example r] r show ?thesis by simp
qed

subsection \<open>The close timer\<close>

text \<open>
  C2, as the code has it. \<open>finishRootSpan\<close> keeps the timer handle on the instance
  whose hook completed, not on the root. So, after any hook calls and timer firings, every
  instance has at most one pending close timer of its own; and when a tracked instance
  completes an operation (its after-hook runs with a span stored for the operation) the
  pending timer that instance had set is cancelled, the timers of other instances stay,
  and one new timer of that instance is pending, due \<open>options.timeout\<close> milliseconds
  later and carrying the completion timestamp.
\<close>

theorem one_timer_per_instance:
  assumes "w = run env options mixins evs initialWorld"
  shows "length (timersOf w vm) \<le> 1 \<and>
         (tracked env options vm \<and> mixinOf mixins hook = Some c \<and> \<not> isBefore c \<and>
          spanOf w vm (c_operation c) = Some s \<longrightarrow>
            pending (step env options mixins (HookCall vm hook act) w) =
              cancelled w vm @
                [\<lparr> handle = nextHandle w, t_vm = vm,
                   t_timestamp = of_nat (clock w) / 1000,
                   due = clock w + timeout options \<rparr>] \<and>
            timersOf (step env options mixins (HookCall vm hook act) w) vm =
              [\<lparr> handle = nextHandle w, t_vm = vm,
                 t_timestamp = of_nat (clock w) / 1000,
                 due = clock w + timeout options \<rparr>])"
proof -
  have ok: "timersOk w" unfolding assms by (rule timersOk_run[OF timersOk_initialWorld])
  have "pending (step env options mixins (HookCall vm hook act) w) =
              cancelled w vm @
                [\<lparr> handle = nextHandle w, t_vm = vm,
                   t_timestamp = of_nat (clock w) / 1000,
                   due = clock w + timeout options \<rparr>]"
    if "tracked env options vm" "mixinOf mixins hook = Some c" "\<not> isBefore c"
       "spanOf w vm (c_operation c) = Some s"
    using that lifecycleHook_after[OF that(1) that(3) that(4), of act] by simp
  then show ?thesis
    using timersOk_atmost[OF ok, of vm] timersOf_cancelled[OF ok, of vm]
    by (simp add: timersOf_def)
qed

text \<open>
  After the root and a child have each completed a mount, the child completes again: its
  timer 1 is replaced by timer 3, while timer 2 of the root stays pending.
\<close>

theorem one_timer_per_instance_witness:
  "length (timersOf bothMounted 2) \<le> 1 \<and>
   timersOf (step exampleTree exampleOptions exampleMixins (HookCall 2 ''mounted'' None) bothMounted) 2 =
     [\<lparr> handle = 3, t_vm = 2, t_timestamp = 7 / 1000, due = 107 \<rparr>]"
proof -
  have s: "spanOf bothMounted 2 (c_operation mountedClosure) = Some (Started 2)"
    by (simp add: closures_example bothMounted_facts)
  from one_timer_per_instance[OF bothMounted_def, of 2 "''mounted''" mountedClosure "Started 2" None]
  show ?thesis
    by (simp add: s tracked_example mixinOf_example closures_example bothMounted_facts
        timeout_example)
qed

text \<open>
  The claim as it was stated fails: after a child and the root have each completed a
  mount, two timers are pending whose callbacks close the root span of the same root.
\<close>

theorem one_timer_per_root_counterexample:
  "map handle (pending bothMounted) = [1, 2] \<and>
   map (\<lambda>t. vm_root exampleTree (t_vm t)) (pending bothMounted) = [0, 0] \<and>
   map t_vm (pending bothMounted) = [2, 0]"
  by code_simp

subsection \<open>The quiet period\<close>




subsection \<open>The after-hook\<close>

text \<open>
  C4, as the code has it. When the after-hook of a tracked instance runs and a span is
  stored for the operation, the hook calls \<open>end()\<close> on that span (with no timestamp of
  its own, so the tracer stamps it with the current time), leaves the span stored in the
  instance's map, and arms the close timer with the completion timestamp and
  \<open>options.timeout\<close>: the timer this instance had set is cancelled and a new one is
  pending. This holds for the root and for any other instance alike; on the root the
  first part of the hook may start the root span beforehand.
\<close>

theorem after_hook_completion:
  assumes "tracked env options this" "\<not> isBefore c"
    and "spanOf w this (c_operation c) = Some s"
  shows "calls (lifecycleHook env options c this act w) =
           calls (ensureRootSpan env this act w) @ [SpanEnd s None (clock w)] \<and>
         spanOf (lifecycleHook env options c this act w) this (c_operation c) = Some s \<and>
         pending (lifecycleHook env options c this act w) =
           cancelled w this @
             [\<lparr> handle = nextHandle w, t_vm = this,
                t_timestamp = of_nat (clock w) / 1000,
                due = clock w + timeout options \<rparr>] \<and>
         sentryRootSpanTimer (data (lifecycleHook env options c this act w) this) =
           Some (nextHandle w)"
  using lifecycleHook_after[OF assms, of act] assms(3) by simp

theorem after_hook_completion_witness:
  "calls (lifecycleHook exampleTree exampleOptions mountedClosure 2 None mountStarted) =
     calls mountStarted @ [SpanEnd (Started 2) None 5] \<and>
   spanOf (lifecycleHook exampleTree exampleOptions mountedClosure 2 None mountStarted) 2 ''mount'' =
     Some (Started 2) \<and>
   pending (lifecycleHook exampleTree exampleOptions mountedClosure 2 None mountStarted) =
     [\<lparr> handle = 1, t_vm = 2, t_timestamp = 5 / 1000, due = 105 \<rparr>] \<and>
   sentryRootSpanTimer (data (lifecycleHook exampleTree exampleOptions mountedClosure 2 None
     mountStarted) 2) = Some 1"
proof -
  have s: "spanOf mountStarted 2 (c_operation mountedClosure) = Some (Started 2)"
    by (simp add: closures_example mountStarted_facts)
  from after_hook_completion[OF tracked_example closures_example(2) s, of None]
  show ?thesis by (simp add: mountStarted_facts closures_example timeout_example)
qed

text \<open>
  The claim as it was stated fails: after the after-hook the map still holds the span
  that was just ended.
\<close>

theorem after_hook_completion_counterexample:
  "spanOf (step exampleTree exampleOptions exampleMixins (HookCall 2 ''mounted'' None) mountStarted)
     2 ''mount'' = Some (Started 2) \<and>
   endCalls (step exampleTree exampleOptions exampleMixins (HookCall 2 ''mounted'' None) mountStarted)
     (Started 2) = [SpanEnd (Started 2) None 5]"
  by code_simp

subsection \<open>The before-hook\<close>

text \<open>
  C5. In a state the hooks and timers can reach, let a tracked instance store a span for
  the operation that has not been ended, and let its before-hook for that operation run
  with a starting context (the root stores a root span, or a span is active). Then the
  hook ends the old span and only then starts the new span, which it stores in place of
  the old one; the two spans are different, the old one has been ended once and the new
  one is open. When the after-hook runs next, the new span is ended once as well: two
  spans ended, none left open. Before, between and after the two hooks every span of an
  operation that is open is stored, in one slot only, so that no instance has two open
  spans for one operation.
\<close>

theorem defensive_close:
  assumes tbl: "createTracingMixins build options = Inr (warns, mixins)"
    and reach: "w = run env options mixins evs initialWorld"
    and mc: "mixinOf mixins hook = Some c" and mc': "mixinOf mixins hook' = Some c'"
    and tr: "tracked env options this"
    and b: "isBefore c" and a: "\<not> isBefore c'" and op: "c_operation c' = c_operation c"
    and old: "spanOf w this (c_operation c) = Some old" and opn: "endCalls w old = []"
    and ctx: "sentryRootSpan (data w (vm_root env this)) \<noteq> None \<or> act \<noteq> None"
  shows
    "calls (lifecycleHook env options c this act w) =
       calls (ensureRootSpan env this act w) @
         [SpanEnd old None (clock w),
          StartInactiveSpan
            \<lparr> span_name = ''Vue <'' @ formatComponentName env this @ ''>'',
              span_op = VUE_OP @ ''.'' @ c_operation c,
              span_origin = ''auto.ui.vue'' \<rparr>] \<and>
     spanOf (lifecycleHook env options c this act w) this (c_operation c) =
       Some (Started (length (started (calls (ensureRootSpan env this act w))))) \<and>
     Started (length (started (calls (ensureRootSpan env this act w)))) \<noteq> old \<and>
     endCalls (lifecycleHook env options c this act w) old = [SpanEnd old None (clock w)] \<and>
     endCalls (lifecycleHook env options c this act w)
       (Started (length (started (calls (ensureRootSpan env this act w))))) = [] \<and>
     endCalls (lifecycleHook env options c' this act'
                (lifecycleHook env options c this act w)) old = [SpanEnd old None (clock w)] \<and>
     endCalls (lifecycleHook env options c' this act'
                (lifecycleHook env options c this act w))
       (Started (length (started (calls (ensureRootSpan env this act w))))) =
       [SpanEnd (Started (length (started (calls (ensureRootSpan env this act w))))) None
          (clock w)] \<and>
     slotsOk env w \<and>
     slotsOk env (lifecycleHook env options c this act w) \<and>
     slotsOk env (lifecycleHook env options c' this act'
                (lifecycleHook env options c this act w))"
proof -
  let ?w0 = "ensureRootSpan env this act w"
  let ?w2 = "initSpans this ?w0"
  let ?w1 = "lifecycleHook env options c this act w"
  let ?new = "Started (length (started (calls ?w0)))"
  let ?ctxt = "\<lparr> span_name = ''Vue <'' @ formatComponentName env this @ ''>'',
              span_op = VUE_OP @ ''.'' @ c_operation c,
              span_origin = ''auto.ui.vue'' \<rparr>"
  have ok: "spansOk w" unfolding reach by (rule spansOk_run[OF tbl spansOk_initialWorld])
  have sl: "slotsOk env w" unfolding reach by (rule slotsOk_run[OF slotsOk_initialWorld])
  have ok0: "spansOk ?w0" using ok by (rule spansOk_ensureRootSpan)
  have eq1: "?w1 = beforeHook env (c_operation c) this act ?w2"
    using tr b by (simp add: lifecycleHook_tracked)
  have sc: "startingContext env this act ?w2 \<noteq> None"
    using startingContext_ensured[OF ctx] by simp
  have old2: "spanOf ?w2 this (c_operation c) = Some old" using old by simp
  have c1: "calls ?w1 = calls ?w0 @ [SpanEnd old None (clock w), StartInactiveSpan ?ctxt]"
    unfolding eq1 beforeHook_Some(1)[OF sc] old2 by simp
  have s1: "spanOf ?w1 this (c_operation c) = Some ?new"
    unfolding eq1 beforeHook_Some(2)[OF sc] by simp
  from spansOk_stored[OF ok old] obtain i where i: "old = Started i" "i < length (started (calls w))"
    by blast
  have "length (started (calls w)) \<le> length (started (calls ?w0))"
    by (simp add: ensureRootSpan_cases setData_def)
  with i have ne: "?new \<noteq> old" by simp
  have f0: "endCalls ?w0 ?new = []" using ok0 by (rule spansOk_fresh)
  have e0: "endCalls ?w0 old = []" using opn by simp
  have eo1: "endCalls ?w1 old = [SpanEnd old None (clock w)]"
    using e0 by (simp add: endCalls_def c1)
  have en1: "endCalls ?w1 ?new = []"
    using f0 ne by (simp add: endCalls_def c1)
  let ?w3 = "lifecycleHook env options c' this act' ?w1"
  have clk: "clock ?w1 = clock w" unfolding eq1 by simp
  have c3: "calls ?w3 = calls (ensureRootSpan env this act' ?w1) @ [SpanEnd ?new None (clock w)]"
    using lifecycleHook_after(1)[OF tr a, of ?w1 ?new act'] s1 op clk by simp
  have eo3: "endCalls ?w3 old = [SpanEnd old None (clock w)]"
    using eo1 ne endCalls_ensureRootSpan[of env this act' ?w1 old]
    by (simp add: endCalls_def c3)
  have en3: "endCalls ?w3 ?new = [SpanEnd ?new None (clock w)]"
    using en1 endCalls_ensureRootSpan[of env this act' ?w1 ?new]
    by (simp add: endCalls_def c3)
  have sl1: "slotsOk env ?w1" using sl by (rule slotsOk_lifecycleHook)
  have sl3: "slotsOk env ?w3" using sl1 by (rule slotsOk_lifecycleHook)
  from c1 s1 ne eo1 en1 eo3 en3 sl sl1 sl3 show ?thesis by blast
qed

text \<open>
  \<open>Foo\<close> has started to mount; its before-hook runs again and then its after-hook.
\<close>

theorem defensive_close_witness:
  "endCalls (lifecycleHook exampleTree exampleOptions mountedClosure 2 None
      (lifecycleHook exampleTree exampleOptions beforeMountClosure 2 None mountStarted)) (Started 2) =
     [SpanEnd (Started 2) None 5] \<and>
   endCalls (lifecycleHook exampleTree exampleOptions mountedClosure 2 None
      (lifecycleHook exampleTree exampleOptions beforeMountClosure 2 None mountStarted)) (Started 3) =
     [SpanEnd (Started 3) None 5] \<and>
   spanOf (lifecycleHook exampleTree exampleOptions beforeMountClosure 2 None mountStarted) 2 ''mount'' =
     Some (Started 3) \<and>
   slotsOk exampleTree
     (lifecycleHook exampleTree exampleOptions beforeMountClosure 2 None mountStarted)"
proof -
  have o: "c_operation mountedClosure = c_operation beforeMountClosure"
    by (simp add: closures_example)
  have s: "spanOf mountStarted 2 (c_operation beforeMountClosure) = Some (Started 2)"
    by (simp add: closures_example mountStarted_facts)
  have c: "sentryRootSpan (data mountStarted (vm_root exampleTree 2)) \<noteq> None \<or> (None :: Span option) \<noteq> None"
    by (simp add: mountStarted_facts)
  from defensive_close[OF createTracingMixins_example mountStarted_def mixinOf_example
         tracked_example closures_example(1) closures_example(2) o s
         mountStarted_facts(2) c, of None]
  show ?thesis by (simp add: mountStarted_facts closures_example)
qed

subsection \<open>Hooks that find nothing to do\<close>

text \<open>
  C6, as the code has it. A before-hook that runs while the root stores no root span and
  no span is active starts no span: on a tracked instance it only makes sure that the
  instance's span map exists (an absent map becomes the empty map, every lookup stays as
  it was), on any other instance it changes nothing. An after-hook that finds no span
  stored for its operation ends no span and arms no timer; on the root instance the first
  part of the hook may still start the root span. The starting context of a before-hook
  is the root span stored on the root if there is one, and else the active span.
\<close>

theorem missing_context_skip:
  "(isBefore c \<and> sentryRootSpan (data w (vm_root env this)) = None \<and> act = None \<longrightarrow>
      lifecycleHook env options c this act w =
        (if tracked env options this then initSpans this w else w)) \<and>
   (\<not> isBefore c \<and> spanOf w this (c_operation c) = None \<longrightarrow>
      lifecycleHook env options c this act w =
        (if tracked env options this then initSpans this (ensureRootSpan env this act w)
         else w)) \<and>
   calls (initSpans this w) = calls w \<and>
   pending (initSpans this w) = pending w \<and>
   (\<forall>v. sentryRootSpan (data (initSpans this w) v) = sentryRootSpan (data w v)) \<and>
   (\<forall>v. sentryRootSpanTimer (data (initSpans this w) v) = sentryRootSpanTimer (data w v)) \<and>
   (\<forall>v operation. spanOf (initSpans this w) v operation = spanOf w v operation) \<and>
   pending (ensureRootSpan env this act w) = pending w \<and>
   (\<forall>s. endCalls (ensureRootSpan env this act w) s = endCalls w s) \<and>
   startingContext env this act w =
     (case sentryRootSpan (data w (vm_root env this)) of Some s \<Rightarrow> Some s | None \<Rightarrow> act)"
proof -
  have a: "isBefore c \<and> sentryRootSpan (data w (vm_root env this)) = None \<and> act = None \<longrightarrow>
      lifecycleHook env options c this act w =
        (if tracked env options this then initSpans this w else w)"
    by (cases "tracked env options this")
       (simp_all add: lifecycleHook_untracked lifecycleHook_tracked ensureRootSpan_cases
          beforeHook_cases startingContext_def)
  have b: "\<not> isBefore c \<and> spanOf w this (c_operation c) = None \<longrightarrow>
      lifecycleHook env options c this act w =
        (if tracked env options this then initSpans this (ensureRootSpan env this act w)
         else w)"
    by (cases "tracked env options this")
       (simp_all add: lifecycleHook_untracked lifecycleHook_tracked afterHook_cases)
  have e: "\<forall>s. endCalls (ensureRootSpan env this act w) s = endCalls w s"
    by (simp add: ensureRootSpan_cases endCalls_def setData_def)
  from a b e show ?thesis by (simp add: startingContext_def)
qed

theorem missing_context_skip_witness:
  "lifecycleHook exampleTree exampleOptions beforeMountClosure 2 None initialWorld =
     initSpans 2 initialWorld \<and>
   lifecycleHook exampleTree exampleOptions mountedClosure 2 (Some (Foreign 0)) initialWorld =
     initSpans 2 (ensureRootSpan exampleTree 2 (Some (Foreign 0)) initialWorld)"
proof -
  have i: "sentryRootSpan (data initialWorld (vm_root exampleTree 2)) = None"
    "spanOf initialWorld 2 ''mount'' = None"
    by (simp_all add: initialWorld_def spanOf_def)
  from missing_context_skip[of beforeMountClosure initialWorld exampleTree 2 None exampleOptions]
       missing_context_skip[of mountedClosure initialWorld exampleTree 2 "Some (Foreign 0)" exampleOptions]
  show ?thesis by (simp add: i closures_example tracked_example)
qed

text \<open>
  The claim as it was stated fails: the after-hook \<open>updated\<close> of the root, with no
  span stored for \<open>update\<close> and a span active, starts the root span.
\<close>

theorem missing_context_skip_counterexample:
  "mixinOf exampleMixins ''updated'' =
     Some \<lparr> c_operation = ''update'', c_internalHooks = [''beforeUpdate'', ''updated''],
            c_internalHook = ''updated'' \<rparr> \<and>
   spanOf initialWorld 0 ''update'' = None \<and>
   calls (step exampleTree exampleOptions exampleMixins
      (HookCall 0 ''updated'' (Some (Foreign 0))) initialWorld) =
     [StartInactiveSpan \<lparr> span_name = ''Application Render'', span_op = ''ui.vue.render'',
        span_origin = ''auto.ui.vue'' \<rparr>] \<and>
   sentryRootSpan (data (step exampleTree exampleOptions exampleMixins
      (HookCall 0 ''updated'' (Some (Foreign 0))) initialWorld) 0) = Some (Started 0)"
  by code_simp

subsection \<open>The component filter\<close>

text \<open>
  C7. With a list of names, the display name passes the filter exactly when it is an
  element of the list; with a boolean, that boolean decides; with no setting, nothing
  passes. A hook on an instance that is not the root and whose name does not pass changes
  nothing, so it starts and ends no span. On the root, whatever the filter says, and on an
  instance whose name passes, a before-hook with a starting context starts the span
  \<open>Vue <name>\<close> tagged with the operation and stores it, and an after-hook that finds a
  span stored ends it; such a hook does what it would do with
  \<open>trackComponents = true\<close>.
\<close>

theorem component_filter:
  "shouldTrack (Names ns) name = (name \<in> set ns) \<and>
   shouldTrack (Flag b) name = b \<and>
   shouldTrack Absent name = False \<and>
   (vm_root env this \<noteq> this \<and>
    \<not> shouldTrack (trackComponents options) (formatComponentName env this) \<longrightarrow>
      lifecycleHook env options c this act w = w) \<and>
   ((vm_root env this = this \<or>
     shouldTrack (trackComponents options) (formatComponentName env this)) \<and>
    isBefore c \<and> (sentryRootSpan (data w (vm_root env this)) \<noteq> None \<or> act \<noteq> None) \<longrightarrow>
      started (calls (lifecycleHook env options c this act w)) =
        started (calls (ensureRootSpan env this act w)) @
          [\<lparr> span_name = ''Vue <'' @ formatComponentName env this @ ''>'',
             span_op = ''ui.vue.'' @ c_operation c,
             span_origin = ''auto.ui.vue'' \<rparr>] \<and>
      spanOf (lifecycleHook env options c this act w) this (c_operation c) =
        Some (Started (length (started (calls (ensureRootSpan env this act w)))))) \<and>
   ((vm_root env this = this \<or>
     shouldTrack (trackComponents options) (formatComponentName env this)) \<and>
    \<not> isBefore c \<and> spanOf w this (c_operation c) = Some s \<longrightarrow>
      calls (lifecycleHook env options c this act w) =
        calls (ensureRootSpan env this act w) @ [SpanEnd s None (clock w)]) \<and>
   lifecycleHook env options c this act w =
     (if vm_root env this = this \<or>
         shouldTrack (trackComponents options) (formatComponentName env this)
      then lifecycleHook env (options\<lparr>trackComponents := Flag True\<rparr>) c this act w
      else w)"
proof -
  have t: "tracked env (options\<lparr>trackComponents := Flag True\<rparr>) this"
    by (simp add: tracked_def shouldTrack_def)
  have eq: "lifecycleHook env options c this act w =
     (if tracked env options this
      then lifecycleHook env (options\<lparr>trackComponents := Flag True\<rparr>) c this act w
      else w)"
  proof (cases "tracked env options this")
    case True
    then show ?thesis
      by (simp add: lifecycleHook_tracked t
          afterHook_timeout[of "options\<lparr>trackComponents := Flag True\<rparr>" options])
  next
    case False
    then show ?thesis by (simp add: lifecycleHook_untracked)
  qed
  have un: "\<not> tracked env options this \<longrightarrow> lifecycleHook env options c this act w = w"
    by (simp add: lifecycleHook_untracked)
  have bf: "tracked env options this \<and> isBefore c \<and>
        (sentryRootSpan (data w (vm_root env this)) \<noteq> None \<or> act \<noteq> None) \<longrightarrow>
      started (calls (lifecycleHook env options c this act w)) =
        started (calls (ensureRootSpan env this act w)) @
          [\<lparr> span_name = ''Vue <'' @ formatComponentName env this @ ''>'',
             span_op = ''ui.vue.'' @ c_operation c,
             span_origin = ''auto.ui.vue'' \<rparr>] \<and>
      spanOf (lifecycleHook env options c this act w) this (c_operation c) =
        Some (Started (length (started (calls (ensureRootSpan env this act w)))))"
  proof (intro impI, elim conjE)
    assume tr: "tracked env options this" and b: "isBefore c"
      and ctx: "sentryRootSpan (data w (vm_root env this)) \<noteq> None \<or> act \<noteq> None"
    let ?w2 = "initSpans this (ensureRootSpan env this act w)"
    have sc: "startingContext env this act ?w2 \<noteq> None"
      using startingContext_ensured[OF ctx] by simp
    have eq1: "lifecycleHook env options c this act w = beforeHook env (c_operation c) this act ?w2"
      using tr b by (simp add: lifecycleHook_tracked)
    show "started (calls (lifecycleHook env options c this act w)) =
        started (calls (ensureRootSpan env this act w)) @
          [\<lparr> span_name = ''Vue <'' @ formatComponentName env this @ ''>'',
             span_op = ''ui.vue.'' @ c_operation c,
             span_origin = ''auto.ui.vue'' \<rparr>] \<and>
      spanOf (lifecycleHook env options c this act w) this (c_operation c) =
        Some (Started (length (started (calls (ensureRootSpan env this act w)))))"
      unfolding eq1 beforeHook_Some[OF sc]
      by (simp add: VUE_OP_def split: option.splits)
  qed
  have af: "tracked env options this \<and> \<not> isBefore c \<and> spanOf w this (c_operation c) = Some s \<longrightarrow>
      calls (lifecycleHook env options c this act w) =
        calls (ensureRootSpan env this act w) @ [SpanEnd s None (clock w)]"
    using lifecycleHook_after(1) by blast
  from eq un bf af show ?thesis
    by (simp add: tracked_def shouldTrack_def indexOf_gt)
qed

text \<open>
  With \<open>trackComponents = ["Foo"]\<close> and a span active: the before-hook of \<open>Bar\<close>
  changes nothing, the one of \<open>Foo\<close> starts the span of \<open>Foo\<close>, and the one of the
  root starts the root span and the span of the root.
\<close>

theorem component_filter_witness:
  "lifecycleHook exampleTree fooOptions beforeMountClosure 3 (Some (Foreign 0)) initialWorld =
     initialWorld \<and>
   started (calls (lifecycleHook exampleTree fooOptions beforeMountClosure 2 (Some (Foreign 0))
     initialWorld)) =
     [\<lparr> span_name = ''Vue <Foo>'', span_op = ''ui.vue.mount'', span_origin = ''auto.ui.vue'' \<rparr>] \<and>
   started (calls (lifecycleHook exampleTree fooOptions beforeMountClosure 0 (Some (Foreign 0))
     initialWorld)) =
     [\<lparr> span_name = ''Application Render'', span_op = ''ui.vue.render'',
        span_origin = ''auto.ui.vue'' \<rparr>,
      \<lparr> span_name = ''Vue <Root>'', span_op = ''ui.vue.mount'', span_origin = ''auto.ui.vue'' \<rparr>]"
proof -
  note u = component_filter[of "[''Foo'']" "''Bar''" True exampleTree 3 fooOptions
      beforeMountClosure "Some (Foreign 0)" initialWorld,
      THEN conjunct2, THEN conjunct2, THEN conjunct2, THEN conjunct1]
  note f = component_filter[of "[''Foo'']" "''Foo''" True exampleTree 2 fooOptions
      beforeMountClosure "Some (Foreign 0)" initialWorld,
      THEN conjunct2, THEN conjunct2, THEN conjunct2, THEN conjunct2, THEN conjunct1]
  note r = component_filter[of "[''Foo'']" "''Root''" True exampleTree 0 fooOptions
      beforeMountClosure "Some (Foreign 0)" initialWorld,
      THEN conjunct2, THEN conjunct2, THEN conjunct2, THEN conjunct2, THEN conjunct1]
  have s: "shouldTrack (Names [''Foo'']) ''Foo''" "\<not> shouldTrack (Names [''Foo'']) ''Bar''"
    by code_simp+
  from u f r show ?thesis
    by (simp add: filter_example closures_example s)
qed

subsection \<open>Starting the root span\<close>

text \<open>
  C8, as the code has it. The root span is started by a hook of the root instance only,
  by its before-hooks and its after-hooks alike, and only when a span is active and the
  root stores no root span: then exactly one span \<open>Application Render\<close> with the tag
  \<open>ui.vue.render\<close> is started and stored on the root. In every other case (the instance
  is not the root, or no span is active, or a root span is stored) the hook starts no root
  span and leaves the stored root span of every instance as it was.
\<close>

theorem ensure_started:
  assumes "HOOKS (c_operation c) = Hooks (c_internalHooks c)"
  shows
   "(vm_root env this = this \<and> act \<noteq> None \<and> sentryRootSpan (data w this) = None \<longrightarrow>
       sentryRootSpan (data (lifecycleHook env options c this act w) this) =
         Some (Started (length (started (calls w)))) \<and>
       (\<forall>v. v \<noteq> this \<longrightarrow>
          sentryRootSpan (data (lifecycleHook env options c this act w) v) =
          sentryRootSpan (data w v)) \<and>
       rootSpansStarted (lifecycleHook env options c this act w) =
         rootSpansStarted w @
           [\<lparr> span_name = ''Application Render'', span_op = ''ui.vue.render'',
              span_origin = ''auto.ui.vue'' \<rparr>]) \<and>
    (\<not> (vm_root env this = this \<and> act \<noteq> None \<and> sentryRootSpan (data w this) = None) \<longrightarrow>
       (\<forall>v. sentryRootSpan (data (lifecycleHook env options c this act w) v) =
            sentryRootSpan (data w v)) \<and>
       rootSpansStarted (lifecycleHook env options c this act w) = rootSpansStarted w)"
  unfolding rootSpansStarted_hooks[OF HOOKS_not_render[OF assms]] sentryRootSpan_hooks
  by (simp add: ensureRootSpan_cases rootSpansStarted_def setData_def VUE_OP_def)

theorem ensure_started_witness:
  "sentryRootSpan (data (lifecycleHook exampleTree exampleOptions beforeMountClosure 0
      (Some (Foreign 0)) initialWorld) 0) = Some (Started 0) \<and>
   rootSpansStarted (lifecycleHook exampleTree exampleOptions beforeMountClosure 0
      (Some (Foreign 0)) initialWorld) =
     [\<lparr> span_name = ''Application Render'', span_op = ''ui.vue.render'',
        span_origin = ''auto.ui.vue'' \<rparr>] \<and>
   sentryRootSpan (data (lifecycleHook exampleTree exampleOptions beforeMountClosure 2
      (Some (Foreign 0)) initialWorld) 0) = None"
proof -
  have h: "HOOKS (c_operation beforeMountClosure) = Hooks (c_internalHooks beforeMountClosure)"
    by code_simp
  have i: "sentryRootSpan (data initialWorld 0) = None" "started (calls initialWorld) = []"
    "rootSpansStarted initialWorld = []" "vm_root exampleTree 0 = 0" "vm_root exampleTree 2 \<noteq> 2"
    by (simp_all add: initialWorld_def rootSpansStarted_def exampleTree_def)
  from ensure_started[OF h, of exampleTree 0 "Some (Foreign 0)" initialWorld exampleOptions]
       ensure_started[OF h, of exampleTree 2 "Some (Foreign 0)" initialWorld exampleOptions]
  show ?thesis by (simp add: i)
qed

text \<open>
  The claim as it was stated fails: the after-hook \<open>mounted\<close> of the root starts the
  root span.
\<close>

theorem ensure_started_counterexample:
  "mixinOf exampleMixins ''mounted'' = Some mountedClosure \<and>
   \<not> isBefore mountedClosure \<and>
   sentryRootSpan (data initialWorld 0) = None \<and>
   sentryRootSpan (data (step exampleTree exampleOptions exampleMixins
      (HookCall 0 ''mounted'' (Some (Foreign 0))) initialWorld) 0) = Some (Started 0)"
  by code_simp

subsection \<open>The hook table\<close>

text \<open>
  C9, as the code has it. The configured operations are joined with the defaults and each
  name is kept once, at its first place: going through the joined list from the left, a
  name is kept exactly when it has not come before. Provided no name is one that
  \<open>HOOKS\<close> inherits from \<open>Object.prototype\<close>, building the table does not fail: every
  name that \<open>HOOKS\<close> does not know is skipped, with a warning in a debug build and
  silently otherwise, and the before-hook and the after-hook of every known name are
  bound, in the order of the names, each hook name once.
\<close>

theorem createTracingMixins_table:
  assumes "\<forall>operation \<in> set (resolvedOperations build options). HOOKS operation \<noteq> Inherited"
  shows "createTracingMixins build options =
           Inr (if DEBUG_BUILD build
                then map (\<lambda>operation. ''Unknown hook: '' @ operation)
                       (filter (\<lambda>operation. HOOKS operation = Undefined)
                          (resolvedOperations build options))
                else [],
                concat (map bindingsOf (resolvedOperations build options)))
         \<and> resolvedOperations build options =
             rev (remdups (rev ((case hooks options of None \<Rightarrow> [] | Some hs \<Rightarrow> hs) @
                                 DEFAULT_HOOKS build)))
         \<and> removeDuplicates ([] :: string list) = []
         \<and> removeDuplicates (names @ [name]) =
             (if name \<in> set names then removeDuplicates names
              else removeDuplicates names @ [name])
         \<and> set (resolvedOperations build options) =
             set (case hooks options of None \<Rightarrow> [] | Some hs \<Rightarrow> hs) \<union> set (DEFAULT_HOOKS build)
         \<and> distinct (resolvedOperations build options)
         \<and> distinct (map fst (concat (map bindingsOf (resolvedOperations build options))))"
proof -
  have "createTracingMixins build options =
          bindHooks (DEBUG_BUILD build) (resolvedOperations build options) ([], [])"
    by (simp add: createTracingMixins_def resolvedOperations_def)
  with bindHooks_acc[OF assms, of "DEBUG_BUILD build" "[]" "[]"]
  have 1: "createTracingMixins build options =
           Inr (if DEBUG_BUILD build
                then map (\<lambda>operation. ''Unknown hook: '' @ operation)
                       (filter (\<lambda>operation. HOOKS operation = Undefined)
                          (resolvedOperations build options))
                else [],
                concat (map bindingsOf (resolvedOperations build options)))"
    by simp
  have 2: "resolvedOperations build options =
             rev (remdups (rev ((case hooks options of None \<Rightarrow> [] | Some hs \<Rightarrow> hs) @
                                 DEFAULT_HOOKS build)))"
    unfolding resolvedOperations_def by (rule removeDuplicates_first)
  have 3: "set (resolvedOperations build options) =
             set (case hooks options of None \<Rightarrow> [] | Some hs \<Rightarrow> hs) \<union> set (DEFAULT_HOOKS build)"
    by (simp add: resolvedOperations_def set_removeDuplicates)
  have 4: "distinct (resolvedOperations build options)"
    by (simp add: resolvedOperations_def distinct_removeDuplicates)
  from 1 2 3 4 distinct_bindings[OF 4] removeDuplicates_snoc[of names name]
  show ?thesis by simp
qed

theorem createTracingMixins_table_witness:
  "createTracingMixins
     \<lparr> DEBUG_BUILD = True, DEFAULT_HOOKS = [''activate'', ''mount'', ''update''] \<rparr>
     \<lparr> hooks = Some [''mount'', ''bogus''], trackComponents = Absent, timeout = 2000 \<rparr>
   = Inr ([''Unknown hook: bogus''], concat (map bindingsOf [''mount'', ''activate'', ''update''])) \<and>
   resolvedOperations
     \<lparr> DEBUG_BUILD = True, DEFAULT_HOOKS = [''activate'', ''mount'', ''update''] \<rparr>
     \<lparr> hooks = Some [''mount'', ''bogus''], trackComponents = Absent, timeout = 2000 \<rparr>
   = [''mount'', ''bogus'', ''activate'', ''update'']"
proof -
  let ?b = "\<lparr> DEBUG_BUILD = True, DEFAULT_HOOKS = [''activate'', ''mount'', ''update''] \<rparr>"
  let ?o = "\<lparr> hooks = Some [''mount'', ''bogus''], trackComponents = Absent, timeout = 2000 \<rparr>"
  have r: "resolvedOperations ?b ?o = [''mount'', ''bogus'', ''activate'', ''update'']"
    by code_simp
  have h: "\<forall>operation \<in> set (resolvedOperations ?b ?o). HOOKS operation \<noteq> Inherited"
    unfolding r by code_simp
  have e: "bindingsOf ''bogus'' = []" by code_simp
  have f: "filter (\<lambda>operation. HOOKS operation = Undefined)
             [''mount'', ''bogus'', ''activate'', ''update''] = [''bogus'']" by code_simp
  from createTracingMixins_table[OF h, THEN conjunct1] r show ?thesis
    unfolding r f by (simp add: e)
qed

text \<open>
  The claim as it was stated fails: outside a debug build an unknown name is skipped
  without any warning; and a name inherited from \<open>Object.prototype\<close> makes the build throw.
\<close>

theorem createTracingMixins_warning_counterexample:
  "HOOKS ''bogus'' = Undefined \<and>
   createTracingMixins \<lparr> DEBUG_BUILD = False, DEFAULT_HOOKS = [''mount''] \<rparr>
     \<lparr> hooks = Some [''bogus''], trackComponents = Absent, timeout = 2000 \<rparr>
   = Inr ([],
          [(''beforeMount'', \<lparr> c_operation = ''mount'',
              c_internalHooks = [''beforeMount'', ''mounted''], c_internalHook = ''beforeMount'' \<rparr>),
           (''mounted'', \<lparr> c_operation = ''mount'',
              c_internalHooks = [''beforeMount'', ''mounted''], c_internalHook = ''mounted'' \<rparr>)]) \<and>
   createTracingMixins \<lparr> DEBUG_BUILD = True, DEFAULT_HOOKS = [''mount''] \<rparr>
     \<lparr> hooks = Some [''constructor''], trackComponents = Absent, timeout = 2000 \<rparr>
   = Inl TypeError"
  by code_simp

subsection \<open>Web vitals\<close>

text \<open>
  C10. \<open>getCumulativeLayoutShift\<close> is not total: on a metric whose first entry has a
  \<open>sources\<close> list that is present but empty it fails (TypeError) instead of returning an
  entry with an undefined node id; on a metric with no entries, or whose first entry has no
  \<open>sources\<close>, it returns an entry whose \<open>nodeId\<close> is undefined.
\<close>

theorem getCumulativeLayoutShift_partial:
  "(entries m = e # es \<and> sources e = Some [] \<longrightarrow> getCumulativeLayoutShift b m = Inl TypeError) \<and>
   (entries m = [] \<longrightarrow>
      getCumulativeLayoutShift b m = Inr (getWebVital b m ''cumulative-layout-shift'' None) \<and>
      nodeId (e_data (getWebVital b m ''cumulative-layout-shift'' None)) = None) \<and>
   (entries m = e # es \<and> sources e = None \<longrightarrow>
      getCumulativeLayoutShift b m = Inr (getWebVital b m ''cumulative-layout-shift'' None) \<and>
      nodeId (e_data (getWebVital b m ''cumulative-layout-shift'' None)) = None)"
  by (simp add: getCumulativeLayoutShift_def getWebVital_def Let_def)

theorem getCumulativeLayoutShift_partial_witness:
  "getCumulativeLayoutShift
     \<lparr> browserPerformanceTimeOrigin = Some 1000, timeOrigin = 0, getId = (\<lambda>n. int n) \<rparr>
     \<lparr> m_value = 1, rating = Good,
       entries = [\<lparr> element = None, sources = Some [], target = None \<rparr>] \<rparr> = Inl TypeError"
  using getCumulativeLayoutShift_partial
    [of "\<lparr> m_value = 1, rating = Good,
           entries = [\<lparr> element = None, sources = Some [], target = None \<rparr>] \<rparr>"
        "\<lparr> element = None, sources = Some [], target = None \<rparr>" "[]"
        "\<lparr> browserPerformanceTimeOrigin = Some 1000, timeOrigin = 0, getId = (\<lambda>n. int n) \<rparr>"]
  by simp

end
